theory Spec2Isabelle
  imports Complex_Main
begin

section \<open>concealSATgen: planted k-SAT generator\<close>

text \<open>
  A shallow embedding of \<^verbatim>\<open>cnfformula.py\<close>, \<^verbatim>\<open>hash_clauses.py\<close>,
  \<^verbatim>\<open>sample_clauses.py\<close> and the generation part of \<^verbatim>\<open>generator.py\<close>.
  Python integers are \<open>int\<close>; the floats that are compared (\<open>random.random() < p\<close>)
  are exact rationals, on which the comparison of finite floats agrees (NaN and the
  infinities are left out); a raised
  exception is the left summand of a sum; the two \<open>while\<close> loops, which have no bound
  in the source, take fuel and answer \<open>None\<close> when it runs out.
\<close>

subsection \<open>Exceptions and Python values\<close>

datatype py_error =
    TypeError string
  | ValueError string
  | KeyError
  | IndexError
  | Exception string

text \<open>The values \<open>add_clause\<close> inspects with \<open>type(..) is int\<close> and \<open>type(..) is bool\<close>.\<close>

datatype pyval = PyInt int | PyBool bool | PyOther

fun is_int :: "pyval \<Rightarrow> bool" where
  "is_int (PyInt _) = True"
| "is_int _ = False"

fun is_bool :: "pyval \<Rightarrow> bool" where
  "is_bool (PyBool _) = True"
| "is_bool _ = False"

fun the_int :: "pyval \<Rightarrow> int" where
  "the_int (PyInt i) = i"
| "the_int _ = 0"

fun the_bool :: "pyval \<Rightarrow> bool" where
  "the_bool (PyBool b) = b"
| "the_bool _ = False"

text \<open>\<open>str\<close> on an integer, for the one formatted message.\<close>

fun digit_char :: "nat \<Rightarrow> char" where
  "digit_char d =
     (if d = 0 then CHR ''0'' else if d = 1 then CHR ''1'' else if d = 2 then CHR ''2''
      else if d = 3 then CHR ''3'' else if d = 4 then CHR ''4'' else if d = 5 then CHR ''5''
      else if d = 6 then CHR ''6'' else if d = 7 then CHR ''7'' else if d = 8 then CHR ''8''
      else CHR ''9'')"

fun str_nat :: "nat \<Rightarrow> string" where
  "str_nat n = (if n < 10 then [digit_char n] else str_nat (n div 10) @ [digit_char (n mod 10)])"

declare str_nat.simps [simp del]

definition str_int :: "int \<Rightarrow> string" where
  "str_int i = (if i < 0 then CHR ''-'' # str_nat (nat (- i)) else str_nat (nat i))"

subsection \<open>cnfformula.py\<close>

record CNF =
  cnf_clauses :: "int list list"
  cnf_n :: int
  cnf_header :: string

definition CNF_init :: "int \<Rightarrow> CNF" where
  "CNF_init n = \<lparr>cnf_clauses = [], cnf_n = n, cnf_header = ''Default header''\<rparr>"

definition len_CNF :: "CNF \<Rightarrow> nat" where
  "len_CNF F = length (cnf_clauses F)"

definition well_typed :: "pyval \<times> pyval \<Rightarrow> bool" where
  "well_typed = (\<lambda>(truth, lit). is_int lit \<and> is_bool truth)"

definition clause_list :: "(pyval \<times> pyval) list \<Rightarrow> int list" where
  "clause_list clause =
     map (\<lambda>(truth, lit). if the_bool truth then the_int lit else - the_int lit) clause"

text \<open>
  \<open>add_clause\<close> mutates the formula only in its last statement. The model returns the
  exception raised (if any) together with the formula as it is afterwards. The clause
  is a list, so the \<open>__iter__\<close> test of the source always passes.
\<close>

definition add_clause :: "CNF \<Rightarrow> (pyval \<times> pyval) list \<Rightarrow> py_error option \<times> CNF" where
  "add_clause F clause =
     (if \<not> list_all well_typed clause then
        (Some (TypeError ''All literals have to be integers.''), F)
      else if list_ex (\<lambda>(_, lit). the_int lit > cnf_n F \<or> the_int lit = 0) clause then
        (Some (ValueError (''Invalid clause. The clause may only contain positive/negative integers up to ''
            @ str_int (cnf_n F) @ ''/'' @ str_int (- cnf_n F) @ ''.'')), F)
      else if card (set (map (\<lambda>(_, lit). the_int lit) clause)) \<noteq> length clause then
        (Some (ValueError ''This class does not accept tautological clauses or clauses with reappearing literals.''), F)
      else (None, F\<lparr>cnf_clauses := cnf_clauses F @ [clause_list clause]\<rparr>))"

subsection \<open>The pseudo-random generator\<close>

text \<open>
  Python's \<open>random\<close> module is not part of the repository. Its operations are taken as
  a parameter: a record of pure functions on the generator's state \<open>'g\<close>, each
  returning its value and the next state. \<open>rng_sample R g lo hi k\<close> stands for
  \<open>random.sample(range(lo, hi), k)\<close> where that call does not raise.
\<close>

record 'g rng =
  rng_seed :: "int \<Rightarrow> 'g"
  rng_random :: "'g \<Rightarrow> rat \<times> 'g"
  rng_choice :: "'g \<Rightarrow> bool \<times> 'g"
  rng_randint :: "'g \<Rightarrow> int \<Rightarrow> int \<Rightarrow> int \<times> 'g"
  rng_sample :: "'g \<Rightarrow> int \<Rightarrow> int \<Rightarrow> nat \<Rightarrow> int list \<times> 'g"

text \<open>\<open>random.sample\<close> raises \<open>ValueError\<close> on a negative or too large sample size.\<close>

definition py_sample :: "'g rng \<Rightarrow> 'g \<Rightarrow> int \<Rightarrow> int \<Rightarrow> int \<Rightarrow> py_error + (int list \<times> 'g)" where
  "py_sample R g lo hi k =
     (if k < 0 \<or> max 0 (hi - lo) < k
      then Inl (ValueError ''Sample larger than population or is negative'')
      else Inr (rng_sample R g lo hi (nat k)))"

text \<open>
  What the library documents of these operations: a sample has the requested length,
  no repetition and only elements of the range; \<open>random()\<close> lies in \<open>[0, 1)\<close>;
  \<open>randint(a, b)\<close> lies in \<open>[a, b]\<close>.
\<close>

definition rng_ok :: "'g rng \<Rightarrow> bool" where
  "rng_ok R \<longleftrightarrow>
     (\<forall>g lo hi k. int k \<le> max 0 (hi - lo) \<longrightarrow>
        length (fst (rng_sample R g lo hi k)) = k \<and>
        distinct (fst (rng_sample R g lo hi k)) \<and>
        set (fst (rng_sample R g lo hi k)) \<subseteq> {lo..<hi}) \<and>
     (\<forall>g. 0 \<le> fst (rng_random R g) \<and> fst (rng_random R g) < 1) \<and>
     (\<forall>g a b. a \<le> b \<longrightarrow> a \<le> fst (rng_randint R g a b) \<and> fst (rng_randint R g a b) \<le> b)"

subsection \<open>hash_clauses.py\<close>

type_synonym literal = "bool \<times> int"
type_synonym clause = "literal list"
type_synonym variable_mapping = "literal \<rightharpoonup> int"

text \<open>
  The loop of \<open>init_variable_mapping\<close>: variable \<open>l\<close> takes the next two entries of the
  sample. Reading past the end of the sample is an \<open>IndexError\<close>.
\<close>

fun fill_mapping :: "int list \<Rightarrow> int list \<Rightarrow> variable_mapping \<Rightarrow> py_error + variable_mapping" where
  "fill_mapping [] sample tbl = Inr tbl"
| "fill_mapping (l # ls) (a # b # sample) tbl =
     fill_mapping ls sample (tbl((True, l) \<mapsto> a, (False, l) \<mapsto> b))"
| "fill_mapping (l # ls) sample tbl = Inl IndexError"

text \<open>
  The state is the module-level dictionary together with the state of the module-level
  stream of \<open>random\<close>. The source seeds a private generator \<open>rng\<close> with \<open>seed\<close> and then
  draws from \<open>random.sample\<close>, the module-level stream; \<open>rng\<close> is never read.
\<close>

definition init_variable_mapping ::
  "'g rng \<Rightarrow> variable_mapping \<times> 'g \<Rightarrow> int \<Rightarrow> int \<Rightarrow> py_error + (variable_mapping \<times> 'g)" where
  "init_variable_mapping R world n seed =
     (let rng = rng_seed R seed in
      case py_sample R (snd world) 0 (2 ^ 32 - 1) (2 * n) of
        Inl e \<Rightarrow> Inl e
      | Inr (sample, g') \<Rightarrow>
          (case fill_mapping [1..n] sample (fst world) of
             Inl e \<Rightarrow> Inl e
           | Inr tbl \<Rightarrow> Inr (tbl, g')))"

fun hash_clause :: "variable_mapping \<Rightarrow> clause \<Rightarrow> py_error + int" where
  "hash_clause tbl [] = Inr 0"
| "hash_clause tbl (x # xs) =
     (case tbl x of
        None \<Rightarrow> Inl KeyError
      | Some v \<Rightarrow> (case hash_clause tbl xs of Inl e \<Rightarrow> Inl e | Inr s \<Rightarrow> Inr (v + s)))"

subsection \<open>sample_clauses.py\<close>

definition unfair_coin_flip :: "'g rng \<Rightarrow> 'g \<Rightarrow> rat \<Rightarrow> bool \<times> 'g" where
  "unfair_coin_flip R g p = (case rng_random R g of (r, g') \<Rightarrow> (r < p, g'))"

definition number_of_satisfied_literals :: "clause \<Rightarrow> (int \<rightharpoonup> bool) \<Rightarrow> nat" where
  "number_of_satisfied_literals clause assignment =
     (let satisfied_lits =
        map (\<lambda>(polarity, var). var \<in> dom assignment \<and> Some polarity = assignment var) clause
      in sum_list (map of_bool satisfied_lits))"

text \<open>
  The candidate clause: the sample of \<open>k\<close> variables is drawn first, then one polarity
  per variable, in order.
\<close>

fun draw_polarities :: "'g rng \<Rightarrow> 'g \<Rightarrow> int list \<Rightarrow> clause \<times> 'g" where
  "draw_polarities R g [] = ([], g)"
| "draw_polarities R g (i # is) =
     (case rng_choice R g of (b, g1) \<Rightarrow>
        (case draw_polarities R g1 is of (rest, g2) \<Rightarrow> ((b, i) # rest, g2)))"

definition draw_clause :: "'g rng \<Rightarrow> 'g \<Rightarrow> int \<Rightarrow> int \<Rightarrow> py_error + (clause \<times> 'g)" where
  "draw_clause R g n k =
     (case py_sample R g 1 (n + 1) k of
        Inl e \<Rightarrow> Inl e
      | Inr (vars, g1) \<Rightarrow> Inr (draw_polarities R g1 vars))"

record 'g sampler_state =
  st_clauses :: "clause list"
  st_highestvariablecreated :: int
  st_variableset :: "int set"
  st_clause_hash_set :: "int set"
  st_stream :: 'g

text \<open>One run of the body of \<open>while len(clauses) < m\<close>.\<close>

definition sample_step ::
  "'g rng \<Rightarrow> variable_mapping \<Rightarrow> int \<Rightarrow> int \<Rightarrow> (int \<rightharpoonup> bool) \<Rightarrow> rat list \<Rightarrow>
   'g sampler_state \<Rightarrow> py_error + 'g sampler_state" where
  "sample_step R tbl k n hidden_solution p st =
     (case draw_clause R (st_stream st) n k of
        Inl e \<Rightarrow> Inl e
      | Inr (clause, g1) \<Rightarrow>
          (let i = number_of_satisfied_literals clause hidden_solution in
           if i > 0 then
             (if length p \<le> i - 1 then Inl IndexError
              else case unfair_coin_flip R g1 (p ! (i - 1)) of (flip, g2) \<Rightarrow>
                if flip then
                  (case hash_clause tbl clause of
                     Inl e \<Rightarrow> Inl e
                   | Inr hash_value \<Rightarrow>
                       if hash_value \<in> st_clause_hash_set st then Inr (st\<lparr>st_stream := g2\<rparr>)
                       else Inr \<lparr>st_clauses = st_clauses st @ [clause],
                                 st_highestvariablecreated =
                                   fold max (map snd clause) (st_highestvariablecreated st),
                                 st_variableset = st_variableset st \<union> set (map snd clause),
                                 st_clause_hash_set = insert hash_value (st_clause_hash_set st),
                                 st_stream = g2\<rparr>)
                else Inr (st\<lparr>st_stream := g2\<rparr>))
           else Inr (st\<lparr>st_stream := g1\<rparr>)))"

text \<open>
  The loop. \<open>None\<close>: the fuel ran out before \<open>len(clauses) < m\<close> became false.
\<close>

fun sample_loop ::
  "nat \<Rightarrow> 'g rng \<Rightarrow> variable_mapping \<Rightarrow> int \<Rightarrow> int \<Rightarrow> int \<Rightarrow> (int \<rightharpoonup> bool) \<Rightarrow> rat list \<Rightarrow>
   'g sampler_state \<Rightarrow> (py_error + (int set \<times> clause list)) option" where
  "sample_loop 0 R tbl k n m hidden_solution p st =
     (if int (length (st_clauses st)) < m then None
      else Some (Inr (st_variableset st, st_clauses st)))"
| "sample_loop (Suc fuel) R tbl k n m hidden_solution p st =
     (if int (length (st_clauses st)) < m then
        (case sample_step R tbl k n hidden_solution p st of
           Inl e \<Rightarrow> Some (Inl e)
         | Inr st' \<Rightarrow> sample_loop fuel R tbl k n m hidden_solution p st')
      else Some (Inr (st_variableset st, st_clauses st)))"

definition sample_clauses ::
  "nat \<Rightarrow> 'g rng \<Rightarrow> variable_mapping \<Rightarrow> int \<Rightarrow> int \<Rightarrow> int \<Rightarrow> (int \<rightharpoonup> bool) \<Rightarrow> int \<Rightarrow> rat list \<Rightarrow>
   (py_error + (int set \<times> clause list)) option" where
  "sample_clauses fuel R tbl k n m hidden_solution s p =
     sample_loop fuel R tbl k n m hidden_solution p
       \<lparr>st_clauses = [], st_highestvariablecreated = 0, st_variableset = {},
        st_clause_hash_set = {}, st_stream = rng_seed R s\<rparr>"

subsection \<open>generator.py\<close>

definition check_parameters :: "int \<Rightarrow> int \<Rightarrow> int \<Rightarrow> rat list \<Rightarrow> py_error option" where
  "check_parameters n m k p =
     (if n < 0 \<or> m < 0 then Some (ValueError ''Parameters either not passed or negative.'')
      else if k \<le> 0 then Some (ValueError ''Parameters must be non-negatives.'')
      else if k > n then
        Some (ValueError (''Clauses cannot have more than '' @ str_int n @ '' literals.''))
      else if int (length p) \<noteq> k then
        Some (ValueError ''Length of list of p-values does not match k.'')
      else if list_ex (\<lambda>val. val > 1) p then Some (ValueError ''All p-values must be <= 1.0'')
      else if list_ex (\<lambda>val. val < 0) p then Some (ValueError ''All p-values must be >= 0.0'')
      else if \<not> list_ex (\<lambda>val. val > 0) p then Some (ValueError ''Some p-values must be > 0.0'')
      else None)"

text \<open>No file given: one \<open>randint(0, 1)\<close> per variable, in order.\<close>

fun random_hidden_solution :: "'g rng \<Rightarrow> 'g \<Rightarrow> int list \<Rightarrow> int list \<times> 'g" where
  "random_hidden_solution R g [] = ([], g)"
| "random_hidden_solution R g (variable # vs) =
     (case rng_randint R g 0 1 of (flip, g1) \<Rightarrow>
        (case random_hidden_solution R g1 vs of (rest, g2) \<Rightarrow>
           ((if flip = 0 then variable else - variable) # rest, g2)))"

text \<open>
  A file given: \<open>xs\<close> is the list of integers read from it (opening and parsing the file
  are outside the model). \<open>max\<close> of an empty list raises \<open>ValueError\<close>.
\<close>

definition check_hidden_solution :: "int \<Rightarrow> int list \<Rightarrow> py_error option" where
  "check_hidden_solution n xs =
     (if xs = [] then Some (ValueError ''max() arg is an empty sequence'')
      else if Max (set (map abs xs)) \<noteq> n then
        Some (Exception ''Number of variables in hidden solution does not match requested n.'')
      else if card (set xs) < length xs then
        Some (Exception ''Hidden solution contains duplicate entries'')
      else if card (set (map abs xs)) \<noteq> length xs then
        Some (Exception ''Hidden solution contains inconsistent entries'')
      else None)"

definition hiddensol_listint :: "'g rng \<Rightarrow> 'g \<Rightarrow> int \<Rightarrow> int list option \<Rightarrow> py_error + (int list \<times> 'g)" where
  "hiddensol_listint R g n F =
     (case F of
        None \<Rightarrow> Inr (random_hidden_solution R g [1..n])
      | Some xs \<Rightarrow>
          (case check_hidden_solution n xs of Some e \<Rightarrow> Inl e | None \<Rightarrow> Inr (xs, g)))"

text \<open>The dictionary comprehension: a later entry of the list overwrites an earlier one.\<close>

definition hidden_dict :: "int list \<Rightarrow> (int \<rightharpoonup> bool)" where
  "hidden_dict xs = fold (\<lambda>var h. h(abs var \<mapsto> (var > 0))) xs Map.empty"

definition py_literal :: "literal \<Rightarrow> pyval \<times> pyval" where
  "py_literal = (\<lambda>(polarity, var). (PyBool polarity, PyInt var))"

text \<open>\<open>for clause in clauselist: F.add_clause(clause)\<close>, stopping at the first exception.\<close>

fun add_clauses :: "CNF \<Rightarrow> clause list \<Rightarrow> py_error + CNF" where
  "add_clauses F [] = Inr F"
| "add_clauses F (clause # rest) =
     (case add_clause F (map py_literal clause) of
        (Some e, _) \<Rightarrow> Inl e
      | (None, F') \<Rightarrow> add_clauses F' rest)"

text \<open>
  The loop \<open>while condition\<close>, with the attempt counter \<open>t\<close>. \<open>None\<close>: the attempts ran
  out, or the sampler's fuel did.
\<close>

fun main_loop ::
  "nat \<Rightarrow> nat \<Rightarrow> 'g rng \<Rightarrow> variable_mapping \<Rightarrow> int \<Rightarrow> int \<Rightarrow> int \<Rightarrow> (int \<rightharpoonup> bool) \<Rightarrow> int \<Rightarrow>
   rat list \<Rightarrow> int \<Rightarrow> (py_error + CNF) option" where
  "main_loop 0 fuel R tbl k n m hidden s p t = None"
| "main_loop (Suc attempts) fuel R tbl k n m hidden s p t =
     (case sample_clauses fuel R tbl k n m hidden (s + (t + 1)) p of
        None \<Rightarrow> None
      | Some (Inl e) \<Rightarrow> Some (Inl e)
      | Some (Inr (variables, clauselist)) \<Rightarrow>
          if int (card variables) \<noteq> n
          then main_loop attempts fuel R tbl k n m hidden s p (t + 1)
          else Some (add_clauses (CNF_init n) clauselist))"

text \<open>\<open>except ValueError: raise ValueError(..)\<close>; any other exception passes through.\<close>

definition except_ValueError :: "py_error + 'a \<Rightarrow> py_error + 'a" where
  "except_ValueError r =
     (case r of
        Inl (ValueError _) \<Rightarrow>
          Inl (ValueError ''There are fewer clauses available than the number requested'')
      | _ \<Rightarrow> r)"

definition default_k :: "int option \<Rightarrow> int" where
  "default_k k = (case k of None \<Rightarrow> 3 | Some k' \<Rightarrow> k')"

definition default_p :: "int \<Rightarrow> rat list option \<Rightarrow> rat list" where
  "default_p k p = (case p of None \<Rightarrow> replicate (nat k) 1 | Some p' \<Rightarrow> p')"

definition default_s :: "int option \<Rightarrow> int" where
  "default_s s = (case s of None \<Rightarrow> 42 | Some s' \<Rightarrow> s')"

text \<open>
  The \<open>try\<close> block of \<open>main\<close>: the table is initialised with the default seed argument,
  on the module-level stream as the hidden solution left it, then the attempts run.
\<close>

definition generate ::
  "nat \<Rightarrow> nat \<Rightarrow> 'g rng \<Rightarrow> variable_mapping \<times> 'g \<Rightarrow> int \<Rightarrow> int \<Rightarrow> int \<Rightarrow> rat list \<Rightarrow> int \<Rightarrow>
   (int \<rightharpoonup> bool) \<Rightarrow> (py_error + CNF) option" where
  "generate attempts fuel R world n m k p s hidden =
     map_option except_ValueError
       (case init_variable_mapping R world n 42 of
          Inl e \<Rightarrow> Some (Inl e)
        | Inr (tbl, g') \<Rightarrow> main_loop attempts fuel R tbl k n m hidden s p 0)"

text \<open>
  \<open>main\<close> up to the formula it hands to the writer. \<open>world\<close> is what the process holds
  when \<open>main\<close> is called: the module-level table and the state of the module-level
  stream. \<open>F\<close> is the content of the hidden-solution file, if one is given.
\<close>

definition main ::
  "nat \<Rightarrow> nat \<Rightarrow> 'g rng \<Rightarrow> variable_mapping \<times> 'g \<Rightarrow> int option \<Rightarrow> int option \<Rightarrow> int option \<Rightarrow>
   rat list option \<Rightarrow> int option \<Rightarrow> int list option \<Rightarrow> (py_error + CNF) option" where
  "main attempts fuel R world n m k p s F =
     (case n of
        None \<Rightarrow> Some (Inl (ValueError ''Please pass parameter n.''))
      | Some n' \<Rightarrow>
     (case m of
        None \<Rightarrow> Some (Inl (ValueError ''Please pass parameter m.''))
      | Some m' \<Rightarrow>
     (case check_parameters n' m' (default_k k) (default_p (default_k k) p) of
        Some e \<Rightarrow> Some (Inl e)
      | None \<Rightarrow>
     (case hiddensol_listint R (rng_seed R (default_s s)) n' F of
        Inl e \<Rightarrow> Some (Inl e)
      | Inr (xs, g1) \<Rightarrow>
          generate attempts fuel R (fst world, g1) n' m' (default_k k)
            (default_p (default_k k) p) (default_s s) (hidden_dict xs)))))"

text \<open>The hidden assignment \<open>main\<close> works with, for stating what holds of its formula.\<close>

definition main_hidden :: "'g rng \<Rightarrow> int \<Rightarrow> int option \<Rightarrow> int list option \<Rightarrow> (int \<rightharpoonup> bool)" where
  "main_hidden R n s F =
     (case hiddensol_listint R (rng_seed R (default_s s)) n F of
        Inl e \<Rightarrow> Map.empty
      | Inr (xs, g1) \<Rightarrow> hidden_dict xs)"

subsection \<open>A small generator to run the model on\<close>

text \<open>
  A deterministic stand-in for the library's generator, with a natural number as its
  state, stepped by a linear congruence modulo 64;
  it meets \<open>rng_ok\<close>. A sample is a window of the range that starts at the state.
\<close>

definition toy_rng :: "nat rng" where
  "toy_rng =
     \<lparr>rng_seed = (\<lambda>s. nat (abs s)),
      rng_random = (\<lambda>g. (Fract (int (g mod 4)) 4, (5 * g + 3) mod 64)),
      rng_choice = (\<lambda>g. (even (g div 4), (5 * g + 3) mod 64)),
      rng_randint =
        (\<lambda>g a b. (if a \<le> b then a + int (g div 8) mod (b - a + 1) else a, (5 * g + 3) mod 64)),
      rng_sample =
        (\<lambda>g lo hi k.
           (map (\<lambda>i. lo + (int g + int i) mod (hi - lo)) [0..<k], (5 * g + 3) mod 64))\<rparr>"

subsection \<open>Notions the properties are stated with\<close>

text \<open>
  The number of literals of a clause of the formula (signed integers) that an
  assignment satisfies.
\<close>

definition satisfied_literals :: "(int \<rightharpoonup> bool) \<Rightarrow> int list \<Rightarrow> nat" where
  "satisfied_literals hidden c = length (filter (\<lambda>l. hidden (abs l) = Some (l > 0)) c)"

text \<open>
  The signed integer \<open>add_clause\<close> stores for a literal of the sampler.
\<close>

definition dimacs_literal :: "literal \<Rightarrow> int" where
  "dimacs_literal = (\<lambda>(polarity, var). if polarity then var else - var)"

text \<open>
  What holds of a clause the sampler has accepted.
\<close>

definition accepted_ok :: "int \<Rightarrow> int \<Rightarrow> (int \<rightharpoonup> bool) \<Rightarrow> rat list \<Rightarrow> clause \<Rightarrow> bool" where
  "accepted_ok k n hidden p c \<longleftrightarrow>
     int (length c) = k \<and> distinct (map snd c) \<and> set (map snd c) \<subseteq> {1..n} \<and>
     0 < number_of_satisfied_literals c hidden \<and>
     number_of_satisfied_literals c hidden \<le> length p \<and>
     0 < p ! (number_of_satisfied_literals c hidden - 1)"

text \<open>
  The invariant of the sampling loop: every accepted clause is as above, the variable
  set is that of the accepted clauses, the fingerprint of every accepted clause is
  recorded, and no two accepted clauses have the same set of literals.
\<close>

definition sampler_inv ::
  "variable_mapping \<Rightarrow> int \<Rightarrow> int \<Rightarrow> (int \<rightharpoonup> bool) \<Rightarrow> rat list \<Rightarrow> 'g sampler_state \<Rightarrow> bool" where
  "sampler_inv tbl k n hidden p st \<longleftrightarrow>
     list_all (accepted_ok k n hidden p) (st_clauses st) \<and>
     st_variableset st = \<Union> (set (map (set \<circ> map snd) (st_clauses st))) \<and>
     list_all (\<lambda>c. \<exists>h \<in> st_clause_hash_set st. hash_clause tbl c = Inr h) (st_clauses st) \<and>
     distinct (map set (st_clauses st))"

text \<open>
  A sampler that holds at most one clause, whose fingerprint \<open>a\<close> is recorded.
\<close>

definition stuck :: "int \<Rightarrow> 'g sampler_state \<Rightarrow> bool" where
  "stuck a st \<longleftrightarrow> length (st_clauses st) \<le> 1 \<and> (st_clauses st \<noteq> [] \<longrightarrow> a \<in> st_clause_hash_set st)"

section \<open>Properties\<close>

subsection \<open>The generator's contract, candidates and fingerprints\<close>

lemma number_of_satisfied_literals_filter:
  "number_of_satisfied_literals c h = length (filter (\<lambda>(b, v). h v = Some b) c)"
  unfolding number_of_satisfied_literals_def Let_def
  by (induction c) (auto simp: dom_def)

lemma py_sample_ok:
  assumes "rng_ok R" and "py_sample R g lo hi k = Inr (xs, g')"
  shows "int (length xs) = k \<and> distinct xs \<and> set xs \<subseteq> {lo..<hi}"
proof -
  from assms(2) have k: "0 \<le> k" "k \<le> max 0 (hi - lo)"
    and xs: "xs = fst (rng_sample R g lo hi (nat k))"
    by (auto simp: py_sample_def split: if_splits)
  from k have "int (nat k) \<le> max 0 (hi - lo)" by simp
  with assms(1) have "length xs = nat k \<and> distinct xs \<and> set xs \<subseteq> {lo..<hi}"
    unfolding rng_ok_def xs by blast
  with k show ?thesis by simp
qed

lemma draw_polarities_vars: "map snd (fst (draw_polarities R g vars)) = vars"
proof (induction vars arbitrary: g)
  case Nil
  show ?case by simp
next
  case (Cons i vars)
  obtain b g1 where c: "rng_choice R g = (b, g1)" by (cases "rng_choice R g")
  obtain rest g2 where d: "draw_polarities R g1 vars = (rest, g2)"
    by (cases "draw_polarities R g1 vars")
  from Cons.IH[of g1] d have "map snd rest = vars" by simp
  with c d show ?case by simp
qed

lemma draw_clause_ok:
  assumes "rng_ok R" and "draw_clause R g n k = Inr (c, g')"
  shows "int (length c) = k \<and> distinct (map snd c) \<and> set (map snd c) \<subseteq> {1..n}"
proof -
  from assms(2) obtain vars g1 where s: "py_sample R g 1 (n + 1) k = Inr (vars, g1)"
    and c: "c = fst (draw_polarities R g1 vars)"
    by (auto simp: draw_clause_def split: sum.splits)
  from c have v: "map snd c = vars" by (simp add: draw_polarities_vars)
  from py_sample_ok[OF assms(1) s] have "int (length vars) = k" "distinct vars" "set vars \<subseteq> {1..<n + 1}"
    by auto
  moreover have "length c = length vars" using v by (metis length_map)
  ultimately show ?thesis using v by auto
qed

lemma hash_clause_sum:
  "hash_clause tbl c =
     (if set c \<subseteq> dom tbl then Inr (sum_list (map (\<lambda>x. the (tbl x)) c)) else Inl KeyError)"
  by (induction c) (auto split: option.splits sum.splits)

lemma hash_clause_same_set:
  assumes "distinct c" and "distinct c'" and "set c = set c'"
  shows "hash_clause tbl c = hash_clause tbl c'"
  using assms by (simp add: hash_clause_sum sum_list_distinct_conv_sum_set)

lemma hash_clause_cong:
  assumes "\<forall>x \<in> set c. t1 x = t2 x"
  shows "hash_clause t1 c = hash_clause t2 c"
  using assms by (induction c) (auto split: option.splits)

subsection \<open>Inserting clauses\<close>

lemma clause_list_py_literal:
  "clause_list (map py_literal c) = map dimacs_literal c"
  by (induction c) (auto simp: clause_list_def py_literal_def dimacs_literal_def)

lemma add_clause_None:
  assumes "add_clause F c = (None, F')"
  shows "F' = F\<lparr>cnf_clauses := cnf_clauses F @ [clause_list c]\<rparr>"
  using assms by (auto simp: add_clause_def split: if_splits)

lemma add_clauses_Inr:
  assumes "add_clauses F cs = Inr F'"
  shows "cnf_clauses F' = cnf_clauses F @ map (\<lambda>c. clause_list (map py_literal c)) cs \<and> cnf_n F' = cnf_n F"
  using assms
proof (induction cs arbitrary: F)
  case Nil
  then show ?case by simp
next
  case (Cons c cs)
  from Cons.prems obtain F1 where a: "add_clause F (map py_literal c) = (None, F1)"
    and r: "add_clauses F1 cs = Inr F'"
    by (auto split: prod.splits option.splits)
  from add_clause_None[OF a] Cons.IH[OF r] show ?case by simp
qed

lemma add_clause_validates:
  assumes "add_clause F' c = (None, F'')"
  shows "distinct (map (\<lambda>(truth, var). the_int var) c) \<and>
         list_all (\<lambda>(truth, var). the_int var \<le> cnf_n F' \<and> the_int var \<noteq> 0) c"
proof -
  from assms have r: "\<not> list_ex (\<lambda>(_, lit). the_int lit > cnf_n F' \<or> the_int lit = 0) c"
    and d: "card (set (map (\<lambda>(_, lit). the_int lit) c)) = length c"
    by (auto simp: add_clause_def split: if_splits)
  from d have "distinct (map (\<lambda>(truth, var). the_int var) c)"
    by (intro card_distinct) simp
  moreover from r have "list_all (\<lambda>(truth, var). the_int var \<le> cnf_n F' \<and> the_int var \<noteq> 0) c"
    by (auto simp: list_ex_iff list_all_iff)
  ultimately show ?thesis by blast
qed

subsection \<open>The invariant of the sampling loop\<close>

lemma sampler_inv_stream [simp]:
  "sampler_inv tbl k n hidden p (st\<lparr>st_stream := g\<rparr>) = sampler_inv tbl k n hidden p st"
  by (simp add: sampler_inv_def)

lemma accepted_ok_distinct: "accepted_ok k n hidden p c \<Longrightarrow> distinct c"
  by (auto simp: accepted_ok_def distinct_map)

lemma sample_step_cases:
  assumes "sample_step R tbl k n hidden p st = Inr st'"
  obtains (same) g where "st' = st\<lparr>st_stream := g\<rparr>"
  | (accept) c g1 g2 h where "draw_clause R (st_stream st) n k = Inr (c, g1)"
      and "0 < number_of_satisfied_literals c hidden"
      and "number_of_satisfied_literals c hidden \<le> length p"
      and "fst (rng_random R g1) < p ! (number_of_satisfied_literals c hidden - 1)"
      and "hash_clause tbl c = Inr h" and "h \<notin> st_clause_hash_set st"
      and "st' = \<lparr>st_clauses = st_clauses st @ [c],
                  st_highestvariablecreated = fold max (map snd c) (st_highestvariablecreated st),
                  st_variableset = st_variableset st \<union> set (map snd c),
                  st_clause_hash_set = insert h (st_clause_hash_set st),
                  st_stream = g2\<rparr>"
  using assms
  by (auto simp: sample_step_def Let_def unfair_coin_flip_def
      split: sum.splits if_splits prod.splits)

lemma sample_step_inv:
  assumes R: "rng_ok R"
    and inv: "sampler_inv tbl k n hidden p st"
    and step: "sample_step R tbl k n hidden p st = Inr st'"
  shows "sampler_inv tbl k n hidden p st'"
  using step
proof (cases rule: sample_step_cases)
  case (same g)
  with inv show ?thesis by simp
next
  case (accept c g1 g2 h)
  note shape = draw_clause_ok[OF R accept(1)]
  from R have "0 \<le> fst (rng_random R g1)" unfolding rng_ok_def by blast
  with accept(4) have "0 < p ! (number_of_satisfied_literals c hidden - 1)" by simp
  with shape accept(2,3) have ok: "accepted_ok k n hidden p c"
    by (simp add: accepted_ok_def)
  from inv have 1: "list_all (accepted_ok k n hidden p) (st_clauses st)"
    and 2: "st_variableset st = \<Union> (set (map (set \<circ> map snd) (st_clauses st)))"
    and 3: "list_all (\<lambda>c. \<exists>h \<in> st_clause_hash_set st. hash_clause tbl c = Inr h) (st_clauses st)"
    and 4: "distinct (map set (st_clauses st))"
    by (auto simp: sampler_inv_def)
  have fresh: "set c \<notin> set (map set (st_clauses st))"
  proof
    assume "set c \<in> set (map set (st_clauses st))"
    then obtain c' where c': "c' \<in> set (st_clauses st)" "set c' = set c" by auto
    from 1 3 c' have ok': "accepted_ok k n hidden p c'"
      and "\<exists>h' \<in> st_clause_hash_set st. hash_clause tbl c' = Inr h'"
      by (auto simp: list_all_iff)
    then obtain h' where h': "h' \<in> st_clause_hash_set st" "hash_clause tbl c' = Inr h'"
      by blast
    have "hash_clause tbl c' = hash_clause tbl c"
      using ok ok' c'(2) by (intro hash_clause_same_set accepted_ok_distinct)
    with h' accept(5,6) show False by simp
  qed
  have a: "list_all (accepted_ok k n hidden p) (st_clauses st')"
    using 1 ok by (simp add: accept(7))
  have b: "st_variableset st' = \<Union> (set (map (set \<circ> map snd) (st_clauses st')))"
    using 2 by (auto simp: accept(7))
  have c: "list_all (\<lambda>c. \<exists>h \<in> st_clause_hash_set st'. hash_clause tbl c = Inr h) (st_clauses st')"
    using 3 accept(5) by (auto simp: accept(7) list_all_iff)
  have d: "distinct (map set (st_clauses st'))"
    using 4 fresh by (simp add: accept(7))
  from a b c d show ?thesis unfolding sampler_inv_def by blast
qed

lemma sample_loop_inv:
  fixes R :: "'g rng"
  assumes R: "rng_ok R"
    and inv: "sampler_inv tbl k n hidden p st"
    and run: "sample_loop fuel R tbl k n m hidden p st = Some (Inr (vs, cs))"
  shows "\<exists>st' :: 'g sampler_state.
           sampler_inv tbl k n hidden p st' \<and> vs = st_variableset st' \<and> cs = st_clauses st'
           \<and> \<not> int (length cs) < m"
  using inv run
proof (induction fuel arbitrary: st)
  case 0
  then have "sampler_inv tbl k n hidden p st \<and> vs = st_variableset st \<and> cs = st_clauses st
      \<and> \<not> int (length cs) < m"
    by (auto split: if_splits)
  then show ?case by blast
next
  case (Suc fuel)
  show ?case
  proof (cases "int (length (st_clauses st)) < m")
    case False
    with Suc.prems have "sampler_inv tbl k n hidden p st \<and> vs = st_variableset st
      \<and> cs = st_clauses st \<and> \<not> int (length cs) < m"
      by auto
    then show ?thesis by blast
  next
    case True
    with Suc.prems(2) obtain st1 where s: "sample_step R tbl k n hidden p st = Inr st1"
      and r: "sample_loop fuel R tbl k n m hidden p st1 = Some (Inr (vs, cs))"
      by (auto split: sum.splits)
    from Suc.IH[OF sample_step_inv[OF R Suc.prems(1) s] r] show ?thesis .
  qed
qed

lemma sampler_inv_init:
  "sampler_inv tbl k n hidden p
     \<lparr>st_clauses = [], st_highestvariablecreated = 0, st_variableset = {},
      st_clause_hash_set = {}, st_stream = g\<rparr>"
  by (simp add: sampler_inv_def)

lemma sample_clauses_ok:
  assumes "rng_ok R" and "sample_clauses fuel R tbl k n m hidden s p = Some (Inr (vs, cs))"
  shows "list_all (accepted_ok k n hidden p) cs \<and> vs = \<Union> (set (map (set \<circ> map snd) cs))
         \<and> distinct (map set cs) \<and> m \<le> int (length cs)"
proof -
  from sample_loop_inv[OF assms(1) sampler_inv_init assms(2)[unfolded sample_clauses_def]]
  show ?thesis by (auto simp: sampler_inv_def)
qed

subsection \<open>What a formula returned by main is made of\<close>

lemma main_loop_Inr:
  assumes "main_loop attempts fuel R tbl k n m hidden s p t = Some (Inr F)"
  shows "\<exists>t' vs cs. sample_clauses fuel R tbl k n m hidden (s + t') p = Some (Inr (vs, cs))
           \<and> int (card vs) = n \<and> add_clauses (CNF_init n) cs = Inr F"
  using assms
proof (induction attempts arbitrary: t)
  case 0
  then show ?case by simp
next
  case (Suc attempts)
  from Suc.prems obtain vs cs where
    s: "sample_clauses fuel R tbl k n m hidden (s + (t + 1)) p = Some (Inr (vs, cs))"
    by (auto split: option.splits sum.splits)
  show ?case
  proof (cases "int (card vs) = n")
    case True
    with Suc.prems s have "add_clauses (CNF_init n) cs = Inr F" by simp
    with s True show ?thesis by blast
  next
    case False
    with Suc.prems s have "main_loop attempts fuel R tbl k n m hidden s p (t + 1) = Some (Inr F)"
      by simp
    from Suc.IH[OF this] show ?thesis .
  qed
qed

lemma except_ValueError_Inr: "except_ValueError r = Inr x \<longleftrightarrow> r = Inr x"
  by (auto simp: except_ValueError_def split: sum.splits py_error.splits)

lemma generate_Inr:
  assumes "generate attempts fuel R world n m k p s hidden = Some (Inr cnf)"
  shows "\<exists>tbl g. init_variable_mapping R world n 42 = Inr (tbl, g) \<and>
           main_loop attempts fuel R tbl k n m hidden s p 0 = Some (Inr cnf)"
  using assms
  by (auto simp: generate_def except_ValueError_Inr split: sum.splits)

lemma main_Inr:
  fixes R :: "'g rng"
  assumes R: "rng_ok R"
    and run: "main attempts fuel R world (Some n) (Some m) k p s F = Some (Inr cnf)"
  shows "\<exists>cs. cnf_clauses cnf = map (map dimacs_literal) cs \<and>
           list_all (accepted_ok (default_k k) n (main_hidden R n s F) (default_p (default_k k) p)) cs \<and>
           \<Union> (set (map (set \<circ> map snd) cs)) = {1..n} \<and>
           distinct (map set cs) \<and> m \<le> int (length cs) \<and> cnf_n cnf = n"
proof -
  let ?k = "default_k k" and ?p = "default_p (default_k k) p" and ?s = "default_s s"
  from run obtain xs g1 where
    chk: "check_parameters n m ?k ?p = None"
    and hid: "hiddensol_listint R (rng_seed R ?s) n F = Inr (xs, g1)"
    and gen: "generate attempts fuel R (fst world, g1) n m ?k ?p ?s (hidden_dict xs) = Some (Inr cnf)"
    by (auto simp: main_def split: option.splits sum.splits)
  from hid have h: "main_hidden R n s F = hidden_dict xs" by (simp add: main_hidden_def)
  from generate_Inr[OF gen] obtain tbl g where
    "main_loop attempts fuel R tbl ?k n m (hidden_dict xs) ?s ?p 0 = Some (Inr cnf)" by blast
  from main_loop_Inr[OF this] obtain t vs cs where
    sc: "sample_clauses fuel R tbl ?k n m (hidden_dict xs) (?s + t) ?p = Some (Inr (vs, cs))"
    and card: "int (card vs) = n" and add: "add_clauses (CNF_init n) cs = Inr cnf"
    by blast
  from sample_clauses_ok[OF R sc] have ok: "list_all (accepted_ok ?k n (hidden_dict xs) ?p) cs"
    and vs: "vs = \<Union> (set (map (set \<circ> map snd) cs))"
    and dist: "distinct (map set cs)" and len: "m \<le> int (length cs)"
    by auto
  from ok vs have sub: "vs \<subseteq> {1..n}"
    by (auto simp: list_all_iff accepted_ok_def)
  from card have "card vs = card {1..n}" by simp
  with sub have full: "vs = {1..n}" by (intro card_subset_eq) auto
  from add_clauses_Inr[OF add]
  have "cnf_clauses cnf = map (map dimacs_literal) cs" and "cnf_n cnf = n"
    by (simp_all add: CNF_init_def clause_list_py_literal)
  with ok full vs dist len h show ?thesis by auto
qed

lemma main_Inr_clause:
  fixes R :: "'g rng"
  assumes "rng_ok R"
    and "main attempts fuel R world (Some n) (Some m) k p s F = Some (Inr cnf)"
    and "c \<in> set (cnf_clauses cnf)"
  obtains c' where
    "accepted_ok (default_k k) n (main_hidden R n s F) (default_p (default_k k) p) c'"
    and "c = map dimacs_literal c'"
proof -
  from main_Inr[OF assms(1,2)] obtain cs where
    cl: "cnf_clauses cnf = map (map dimacs_literal) cs"
    and ok: "list_all (accepted_ok (default_k k) n (main_hidden R n s F) (default_p (default_k k) p)) cs"
    by blast
  from assms(3) cl obtain c' where c': "c' \<in> set cs" "c = map dimacs_literal c'" by auto
  from ok c'(1)
  have "accepted_ok (default_k k) n (main_hidden R n s F) (default_p (default_k k) p) c'"
    by (simp add: list_all_iff)
  then show thesis using c'(2) by (rule that)
qed

lemma dimacs_literal_abs:
  assumes "1 \<le> v"
  shows "abs (dimacs_literal (b, v)) = v" and "(0 < dimacs_literal (b, v)) = b"
  using assms by (auto simp: dimacs_literal_def)

lemma accepted_ok_vars:
  assumes "accepted_ok k n hidden p c" and "(b, v) \<in> set c"
  shows "1 \<le> v" and "v \<le> n"
proof -
  from assms(2) have "v \<in> set (map snd c)" by force
  with assms(1) show "1 \<le> v" and "v \<le> n" by (auto simp: accepted_ok_def)
qed

lemma map_abs_dimacs:
  assumes "accepted_ok k n hidden p c"
  shows "map abs (map dimacs_literal c) = map snd c"
  using accepted_ok_vars(1)[OF assms] by (auto simp: dimacs_literal_abs)

lemma satisfied_literals_dimacs:
  assumes "accepted_ok k n hidden p c"
  shows "satisfied_literals h (map dimacs_literal c) = number_of_satisfied_literals c h"
proof -
  have "filter ((\<lambda>l. h (abs l) = Some (l > 0)) \<circ> dimacs_literal) c
        = filter (\<lambda>(b, v). h v = Some b) c"
    using accepted_ok_vars(1)[OF assms] by (intro filter_cong) (auto simp: dimacs_literal_abs)
  then show ?thesis
    by (simp add: satisfied_literals_def number_of_satisfied_literals_filter filter_map)
qed

lemma dimacs_literal_inj: "inj_on dimacs_literal {(b, v). 1 \<le> v}"
  by (auto simp: inj_on_def dimacs_literal_def split: if_splits)

subsection \<open>The small generator meets the contract; three runs\<close>

lemma window_inj:
  fixes d :: int
  assumes "int i < d" "int j < d" "(g + int i) mod d = (g + int j) mod d"
  shows "i = j"
proof -
  from assms(3) have "d dvd (g + int i) - (g + int j)" by (simp add: mod_eq_dvd_iff)
  then have dv: "d dvd int i - int j" by simp
  have lt: "\<bar>int i - int j\<bar> < d" using assms(1,2) by auto
  have "int i - int j = 0"
  proof (rule ccontr)
    assume "int i - int j \<noteq> 0"
    from dvd_imp_le_int[OF this dv] lt show False by simp
  qed
  then show ?thesis by simp
qed

lemma toy_rng_sample [simp]:
  "rng_sample toy_rng g lo hi k =
     (map (\<lambda>i. lo + (int g + int i) mod (hi - lo)) [0..<k], (5 * g + 3) mod 64)"
  by (simp add: toy_rng_def)

lemma toy_rng_random [simp]:
  "rng_random toy_rng g = (Fract (int (g mod 4)) 4, (5 * g + 3) mod 64)"
  by (simp add: toy_rng_def)

lemma toy_rng_randint [simp]:
  "rng_randint toy_rng g a b =
     (if a \<le> b then a + int (g div 8) mod (b - a + 1) else a, (5 * g + 3) mod 64)"
  by (simp add: toy_rng_def)

lemma toy_rng_ok: "rng_ok toy_rng"
proof -
  have s: "length (fst (rng_sample toy_rng g lo hi k)) = k \<and>
        distinct (fst (rng_sample toy_rng g lo hi k)) \<and>
        set (fst (rng_sample toy_rng g lo hi k)) \<subseteq> {lo..<hi}"
    if k: "int k \<le> max 0 (hi - lo)" for g lo hi k
  proof -
    have d: "int i < hi - lo" if "i < k" for i using k that by auto
    have "inj_on (\<lambda>i. lo + (int g + int i) mod (hi - lo)) (set [0..<k])"
    proof (rule inj_onI)
      fix i j assume i: "i \<in> set [0..<k]" and j: "j \<in> set [0..<k]"
        and e: "lo + (int g + int i) mod (hi - lo) = lo + (int g + int j) mod (hi - lo)"
      from i j have "int i < hi - lo" "int j < hi - lo" using d by simp_all
      moreover from e have "(int g + int i) mod (hi - lo) = (int g + int j) mod (hi - lo)"
        by simp
      ultimately show "i = j" by (rule window_inj)
    qed
    then have 1: "distinct (map (\<lambda>i. lo + (int g + int i) mod (hi - lo)) [0..<k])"
      by (simp add: distinct_map)
    have 2: "lo + (int g + int i) mod (hi - lo) \<in> {lo..<hi}" if "i < k" for i
    proof -
      from d[OF that] have "0 < hi - lo" by simp
      then have "0 \<le> (int g + int i) mod (hi - lo)" "(int g + int i) mod (hi - lo) < hi - lo"
        by simp_all
      then show ?thesis by simp
    qed
    have 3: "set (map (\<lambda>i. lo + (int g + int i) mod (hi - lo)) [0..<k]) \<subseteq> {lo..<hi}"
    proof
      fix x assume "x \<in> set (map (\<lambda>i. lo + (int g + int i) mod (hi - lo)) [0..<k])"
      then obtain i where "i < k" "x = lo + (int g + int i) mod (hi - lo)" by auto
      with 2 show "x \<in> {lo..<hi}" by blast
    qed
    from 1 3 show ?thesis by simp
  qed
  have r: "0 \<le> fst (rng_random toy_rng g) \<and> fst (rng_random toy_rng g) < 1" for g
    by (simp add: zero_le_Fract_iff Fract_less_one_iff)
  have i: "a \<le> fst (rng_randint toy_rng g a b) \<and> fst (rng_randint toy_rng g a b) \<le> b"
    if ab: "a \<le> b" for g a b
  proof -
    from ab have "0 < b - a + 1" by simp
    then have "0 \<le> int (g div 8) mod (b - a + 1)" "int (g div 8) mod (b - a + 1) < b - a + 1"
      by (rule pos_mod_sign, rule pos_mod_bound)
    then have "a \<le> a + int (g div 8) mod (b - a + 1)" "a + int (g div 8) mod (b - a + 1) \<le> b"
      by linarith+
    then show ?thesis using ab by (simp only: toy_rng_randint fst_conv if_True)
  qed
  from s r i show ?thesis unfolding rng_ok_def by blast
qed

lemma run_a:
  "main 5 40 toy_rng (Map.empty, 0) (Some 3) (Some 4) (Some 2) (Some [1/2, 1]) (Some 1) None
     = Some (Inr \<lparr>cnf_clauses = [[- 2, - 3], [2, - 3], [1, - 2], [3, 1]], cnf_n = 3,
                  cnf_header = ''Default header''\<rparr>)"
  by code_simp

lemma run_b:
  "main 5 40 toy_rng (Map.empty, 0) (Some 3) (Some 3) (Some 2) (Some [1, 0]) (Some 1) None
     = Some (Inr \<lparr>cnf_clauses = [[- 3, - 1], [1, 2], [- 1, - 2]], cnf_n = 3,
                  cnf_header = ''Default header''\<rparr>)"
  by code_simp

lemma run_c:
  "main 5 40 toy_rng (Map.empty, 0) (Some 3) (Some 4) None None None None
     = Some (Inr \<lparr>cnf_clauses = [[2, - 3, - 1], [3, 1, 2], [- 2, - 3, - 1], [1, 2, - 3]],
                  cnf_n = 3, cnf_header = ''Default header''\<rparr>)"
  by code_simp

subsection \<open>Plantedness\<close>

text \<open>
  Claim C1. Whenever \<open>main\<close> returns a formula, every clause of it has a literal that
  agrees with the hidden assignment \<open>main\<close> used: the sampler appends a clause only when
  its number of satisfied literals is positive.
\<close>

theorem planted_assignment_satisfies_every_clause:
  assumes "rng_ok R"
    and "main attempts fuel R world (Some n) (Some m) k p s F = Some (Inr cnf)"
  shows "\<forall>c \<in> set (cnf_clauses cnf). \<exists>l \<in> set c. main_hidden R n s F (abs l) = Some (l > 0)"
proof
  fix c assume c: "c \<in> set (cnf_clauses cnf)"
  from assms c obtain c' where
    ok: "accepted_ok (default_k k) n (main_hidden R n s F) (default_p (default_k k) p) c'"
    and cc: "c = map dimacs_literal c'"
    by (rule main_Inr_clause)
  from ok have "0 < satisfied_literals (main_hidden R n s F) c"
    unfolding cc satisfied_literals_dimacs[OF ok] by (simp add: accepted_ok_def)
  then have "filter (\<lambda>l. main_hidden R n s F (abs l) = Some (l > 0)) c \<noteq> []"
    by (simp add: satisfied_literals_def)
  then show "\<exists>l \<in> set c. main_hidden R n s F (abs l) = Some (l > 0)"
    by (simp add: filter_empty_conv)
qed

text \<open>
  The theorem on a run of the small generator: \<open>n = 3\<close>, \<open>m = 4\<close>, \<open>k = 2\<close>, \<open>p = [1/2, 1]\<close>, seed 1.
\<close>

theorem planted_assignment_satisfies_every_clause_witness:
  "main 5 40 toy_rng (Map.empty, 0) (Some 3) (Some 4) (Some 2) (Some [1/2, 1]) (Some 1) None
     = Some (Inr \<lparr>cnf_clauses = [[- 2, - 3], [2, - 3], [1, - 2], [3, 1]], cnf_n = 3,
                  cnf_header = ''Default header''\<rparr>) \<and>
   list_all (\<lambda>c. list_ex (\<lambda>l. main_hidden toy_rng 3 (Some 1) None (abs l) = Some (l > 0)) c)
     [[- 2, - 3], [2, - 3], [1, - 2], [3, 1]]"
proof -
  have run: "main 5 40 toy_rng (Map.empty, 0) (Some 3) (Some 4) (Some 2) (Some [1/2, 1]) (Some 1) None
    = Some (Inr \<lparr>cnf_clauses = [[- 2, - 3], [2, - 3], [1, - 2], [3, 1]], cnf_n = 3,
                 cnf_header = ''Default header''\<rparr>)"
    by code_simp
  from planted_assignment_satisfies_every_clause[OF toy_rng_ok run]
  have "\<forall>c \<in> set [[- 2, - 3], [2, - 3], [1, - 2], [3, 1]].
          \<exists>l \<in> set c. main_hidden toy_rng 3 (Some 1) None (abs l) = Some (l > 0)"
    by (simp only: CNF.simps)
  then have "list_all (\<lambda>c. list_ex (\<lambda>l. main_hidden toy_rng 3 (Some 1) None (abs l) = Some (l > 0)) c)
     [[- 2, - 3], [2, - 3], [1, - 2], [3, 1]]"
    unfolding list_all_iff list_ex_iff .
  with run show ?thesis by (rule conjI)
qed

subsection \<open>Reproducibility\<close>

lemma fill_mapping_add:
  "fill_mapping ls sample tbl =
     (case fill_mapping ls sample Map.empty of Inl e \<Rightarrow> Inl e | Inr d \<Rightarrow> Inr (tbl ++ d))"
proof (induction ls arbitrary: sample tbl)
  case Nil
  show ?case by simp
next
  case (Cons l ls)
  show ?case
  proof (cases sample)
    case Nil
    then show ?thesis by simp
  next
    case outer: (Cons a rest)
    show ?thesis
    proof (cases rest)
      case Nil
      with outer show ?thesis by simp
    next
      case (Cons b rest')
      have 1: "fill_mapping ls rest' (tbl((True, l) \<mapsto> a, (False, l) \<mapsto> b)) =
        (case fill_mapping ls rest' Map.empty of Inl e \<Rightarrow> Inl e
         | Inr d \<Rightarrow> Inr (tbl((True, l) \<mapsto> a, (False, l) \<mapsto> b) ++ d))"
        by (rule Cons.IH)
      have 2: "fill_mapping ls rest' (Map.empty((True, l) \<mapsto> a, (False, l) \<mapsto> b)) =
        (case fill_mapping ls rest' Map.empty of Inl e \<Rightarrow> Inl e
         | Inr d \<Rightarrow> Inr (Map.empty((True, l) \<mapsto> a, (False, l) \<mapsto> b) ++ d))"
        by (rule Cons.IH)
      have 3: "tbl ++ (Map.empty((True, l) \<mapsto> a, (False, l) \<mapsto> b) ++ d)
               = tbl((True, l) \<mapsto> a, (False, l) \<mapsto> b) ++ d" for d
        by (simp add: map_add_assoc[symmetric] map_add_upd)
      show ?thesis
      proof (cases "fill_mapping ls rest' Map.empty")
        case (Inl e)
        with 1 2 show ?thesis by (simp add: outer Cons)
      next
        case (Inr d)
        with 1 2 3[of d] show ?thesis by (simp add: outer Cons)
      qed
    qed
  qed
qed

lemma fill_mapping_dom_aux:
  "fill_mapping ls sample tbl = Inr tbl' \<Longrightarrow>
     (\<forall>x \<in> dom tbl. x \<in> dom tbl') \<and>
     (\<forall>l \<in> set ls. (True, l) \<in> dom tbl' \<and> (False, l) \<in> dom tbl')"
proof (induction ls sample tbl rule: fill_mapping.induct)
  case (2 l ls a b sample tbl)
  from "2.prems" have "fill_mapping ls sample (tbl((True, l) \<mapsto> a, (False, l) \<mapsto> b)) = Inr tbl'"
    by simp
  from "2.IH"[OF this]
  have A: "\<forall>x \<in> dom (tbl((True, l) \<mapsto> a, (False, l) \<mapsto> b)). x \<in> dom tbl'"
    and B: "\<forall>l \<in> set ls. (True, l) \<in> dom tbl' \<and> (False, l) \<in> dom tbl'" by blast+
  from A have "(False, l) \<in> dom tbl' \<and> (True, l) \<in> dom tbl' \<and> (\<forall>x \<in> dom tbl. x \<in> dom tbl')"
    by simp
  with B show ?case by simp
qed simp_all

lemma fill_mapping_dom:
  assumes "fill_mapping ls sample tbl = Inr tbl'" and "l \<in> set ls"
  shows "(b, l) \<in> dom tbl'"
proof -
  from fill_mapping_dom_aux[OF assms(1)] assms(2)
  have "(True, l) \<in> dom tbl'" and "(False, l) \<in> dom tbl'" by simp_all
  then show ?thesis by (cases b) simp_all
qed

lemma init_variable_mapping_Inl:
  assumes "init_variable_mapping R (tbl, g) n seed = Inl e"
  shows "init_variable_mapping R (tbl', g) n seed = Inl e"
proof (cases "py_sample R g 0 (2 ^ 32 - 1) (2 * n)")
  case (Inl e')
  with assms show ?thesis by (simp add: init_variable_mapping_def)
next
  case s: (Inr r)
  obtain sample g' where r: "r = (sample, g')" by (cases r)
  note A = fill_mapping_add[of "[1..n]" sample tbl]
    and B = fill_mapping_add[of "[1..n]" sample tbl']
  show ?thesis
  proof (cases "fill_mapping [1..n] sample Map.empty")
    case (Inl e'')
    with A B have "fill_mapping [1..n] sample tbl = Inl e''"
      and "fill_mapping [1..n] sample tbl' = Inl e''" by simp_all
    with assms s r show ?thesis by (simp add: init_variable_mapping_def)
  next
    case (Inr d)
    with A have "fill_mapping [1..n] sample tbl = Inr (tbl ++ d)" by simp
    with assms s r show ?thesis by (simp add: init_variable_mapping_def)
  qed
qed

lemma init_variable_mapping_Inr:
  assumes "init_variable_mapping R (tbl, g) n seed = Inr (t1, g1)"
  shows "\<exists>t2. init_variable_mapping R (tbl', g) n seed = Inr (t2, g1) \<and>
          (\<forall>b v. 1 \<le> v \<and> v \<le> n \<longrightarrow> t1 (b, v) = t2 (b, v))"
proof (cases "py_sample R g 0 (2 ^ 32 - 1) (2 * n)")
  case (Inl e')
  with assms show ?thesis by (simp add: init_variable_mapping_def)
next
  case s: (Inr r)
  obtain sample g' where r: "r = (sample, g')" by (cases r)
  note A = fill_mapping_add[of "[1..n]" sample tbl]
    and B = fill_mapping_add[of "[1..n]" sample tbl']
  show ?thesis
  proof (cases "fill_mapping [1..n] sample Map.empty")
    case (Inl e'')
    with A have "fill_mapping [1..n] sample tbl = Inl e''" by simp
    with assms s r show ?thesis by (simp add: init_variable_mapping_def)
  next
    case d: (Inr d)
    with A B have a: "fill_mapping [1..n] sample tbl = Inr (tbl ++ d)"
      and b: "fill_mapping [1..n] sample tbl' = Inr (tbl' ++ d)" by simp_all
    from assms s r a have t1: "t1 = tbl ++ d" and g1: "g1 = g'"
      by (simp_all add: init_variable_mapping_def)
    from s r b g1 have i: "init_variable_mapping R (tbl', g) n seed = Inr (tbl' ++ d, g1)"
      by (simp add: init_variable_mapping_def)
    have "(tbl ++ d) (b, v) = (tbl' ++ d) (b, v)" if "1 \<le> v \<and> v \<le> n" for b v
    proof -
      from that have "v \<in> set [1..n]" by simp
      from fill_mapping_dom[OF d this] have "(b, v) \<in> dom d" .
      then show ?thesis by (simp add: map_add_dom_app_simps)
    qed
    with i t1 show ?thesis by blast
  qed
qed

lemma sample_step_cong:
  assumes R: "rng_ok R" and agree: "\<forall>b v. 1 \<le> v \<and> v \<le> n \<longrightarrow> t1 (b, v) = t2 (b, v)"
  shows "sample_step R t1 k n hidden p st = sample_step R t2 k n hidden p st"
proof (cases "draw_clause R (st_stream st) n k")
  case (Inl e)
  then show ?thesis by (simp add: sample_step_def)
next
  case (Inr r)
  obtain c g1 where r: "r = (c, g1)" by (cases r)
  from draw_clause_ok[OF R Inr[unfolded r]] have sub: "set (map snd c) \<subseteq> {1..n}" by simp
  have "t1 x = t2 x" if "x \<in> set c" for x
  proof -
    obtain b v where x: "x = (b, v)" by (cases x)
    from that x have "v \<in> set (map snd c)" by force
    with sub have "1 \<le> v \<and> v \<le> n" by auto
    with agree x show ?thesis by blast
  qed
  then have h: "hash_clause t1 c = hash_clause t2 c" by (intro hash_clause_cong) blast
  show ?thesis
    by (simp only: sample_step_def Inr r sum.case prod.case Let_def h)
qed

lemma sample_loop_cong:
  assumes R: "rng_ok R" and agree: "\<forall>b v. 1 \<le> v \<and> v \<le> n \<longrightarrow> t1 (b, v) = t2 (b, v)"
  shows "sample_loop fuel R t1 k n m hidden p st = sample_loop fuel R t2 k n m hidden p st"
proof (induction fuel arbitrary: st)
  case 0
  show ?case by simp
next
  case (Suc fuel)
  note s = sample_step_cong[OF R agree, of k hidden p st]
  show ?case
  proof (cases "sample_step R t2 k n hidden p st")
    case (Inl e)
    with s show ?thesis by simp
  next
    case (Inr st')
    with s Suc.IH[of st'] show ?thesis by simp
  qed
qed

lemma main_loop_cong:
  assumes R: "rng_ok R" and agree: "\<forall>b v. 1 \<le> v \<and> v \<le> n \<longrightarrow> t1 (b, v) = t2 (b, v)"
  shows "main_loop attempts fuel R t1 k n m hidden s p t
         = main_loop attempts fuel R t2 k n m hidden s p t"
proof (induction attempts arbitrary: t)
  case 0
  show ?case by simp
next
  case (Suc attempts)
  have e: "sample_clauses fuel R t1 k n m hidden (s + (t + 1)) p
        = sample_clauses fuel R t2 k n m hidden (s + (t + 1)) p"
    unfolding sample_clauses_def by (rule sample_loop_cong[OF R agree])
  show ?case
    unfolding main_loop.simps e Suc.IH[of "t + 1"] ..
qed

lemma generate_world:
  assumes R: "rng_ok R"
  shows "generate attempts fuel R (tbl, g) n m k p s hidden
         = generate attempts fuel R (tbl', g) n m k p s hidden"
proof (cases "init_variable_mapping R (tbl, g) n 42")
  case (Inl e)
  from init_variable_mapping_Inl[OF Inl, of tbl'] Inl show ?thesis
    by (simp add: generate_def)
next
  case (Inr r)
  obtain t1 g1 where r: "r = (t1, g1)" by (cases r)
  from init_variable_mapping_Inr[OF Inr[unfolded r], of tbl'] obtain t2 where
    i: "init_variable_mapping R (tbl', g) n 42 = Inr (t2, g1)"
    and agree: "\<forall>b v. 1 \<le> v \<and> v \<le> n \<longrightarrow> t1 (b, v) = t2 (b, v)" by blast
  from Inr r i main_loop_cong[OF R agree, of attempts fuel k m hidden s p 0] show ?thesis
    by (simp add: generate_def)
qed

text \<open>
  Claim C2. The formula \<open>main\<close> produces (or the exception it raises, or its not
  returning within the fuel) is the same whatever the process held before the call: the
  content of the module-level fingerprint table and the state of the module-level
  stream. So two runs with the same arguments give the same formula. Every attempt \<open>t\<close>
  seeds the stream with \<open>s + t\<close> (see \<open>main_loop\<close>).
\<close>

theorem runs_are_reproducible:
  assumes "rng_ok R"
  shows "main attempts fuel R (tbl, g) n m k p s F = main attempts fuel R (tbl', g') n m k p s F"
proof -
  have G: "generate attempts fuel R (fst (tbl, g), g1) n' m' k' p' s' h
         = generate attempts fuel R (fst (tbl', g'), g1) n' m' k' p' s' h" for g1 n' m' k' p' s' h
    unfolding fst_conv by (rule generate_world[OF assms])
  show ?thesis unfolding main_def G ..
qed

text \<open>
  The same run from a process that holds a stale table entry and a used stream.
\<close>

theorem runs_are_reproducible_witness:
  "main 5 40 toy_rng ([(True, 7) \<mapsto> 11], 9) (Some 3) (Some 4) (Some 2) (Some [1/2, 1]) (Some 1) None
     = Some (Inr \<lparr>cnf_clauses = [[- 2, - 3], [2, - 3], [1, - 2], [3, 1]], cnf_n = 3,
                  cnf_header = ''Default header''\<rparr>)"
  unfolding runs_are_reproducible[OF toy_rng_ok, of 5 40 "[(True, 7) \<mapsto> 11]" 9 "Some 3" "Some 4" "Some 2"
      "Some [1/2, 1]" "Some 1" None Map.empty 0]
  by (rule run_a)

subsection \<open>Coverage\<close>

text \<open>
  Claim C3. Whenever \<open>main\<close> returns a formula, every variable \<open>1..n\<close> occurs in one of
  its clauses: an attempt whose variable set has not \<open>n\<close> elements is dropped.
\<close>

theorem every_variable_is_covered:
  assumes "rng_ok R"
    and "main attempts fuel R world (Some n) (Some m) k p s F = Some (Inr cnf)"
  shows "\<forall>v \<in> {1..n}. \<exists>c \<in> set (cnf_clauses cnf). v \<in> abs ` set c"
proof
  fix v assume v: "v \<in> {1..n}"
  from main_Inr[OF assms] obtain cs where
    cl: "cnf_clauses cnf = map (map dimacs_literal) cs"
    and ok: "list_all (accepted_ok (default_k k) n (main_hidden R n s F) (default_p (default_k k) p)) cs"
    and cov: "\<Union> (set (map (set \<circ> map snd) cs)) = {1..n}"
    by blast
  from v cov have "v \<in> \<Union> (set (map (set \<circ> map snd) cs))" by simp
  then obtain c' where c': "c' \<in> set cs" "v \<in> set (map snd c')" by auto
  from ok c'(1) have "accepted_ok (default_k k) n (main_hidden R n s F) (default_p (default_k k) p) c'"
    by (simp add: list_all_iff)
  then have "map abs (map dimacs_literal c') = map snd c'" by (rule map_abs_dimacs)
  with c'(2) have "v \<in> abs ` set (map dimacs_literal c')"
    by (metis set_map)
  moreover from c'(1) cl have "map dimacs_literal c' \<in> set (cnf_clauses cnf)" by simp
  ultimately show "\<exists>c \<in> set (cnf_clauses cnf). v \<in> abs ` set c" by blast
qed

text \<open>
  Coverage on the run of \<open>run_a\<close>.
\<close>

theorem every_variable_is_covered_witness:
  "list_all (\<lambda>v. list_ex (\<lambda>c. v \<in> abs ` set c) [[- 2, - 3], [2, - 3], [1, - 2], [3, 1]])
     [1, 2, 3 :: int]"
proof -
  from every_variable_is_covered[OF toy_rng_ok run_a]
  have "\<forall>v \<in> {1..3::int}. \<exists>c \<in> set [[- 2, - 3], [2, - 3], [1, - 2], [3, 1]]. v \<in> abs ` set c"
    by (simp only: CNF.simps)
  moreover have "set [1, 2, 3 :: int] \<subseteq> {1..3}" by simp
  ultimately
  have "\<forall>v \<in> set [1, 2, 3 :: int]. \<exists>c \<in> set [[- 2, - 3], [2, - 3], [1, - 2], [3, 1]]. v \<in> abs ` set c"
    by blast
  then show ?thesis unfolding list_all_iff list_ex_iff .
qed

subsection \<open>Uniqueness\<close>

text \<open>
  Claim C4. Whenever \<open>main\<close> returns a formula, no two of its clauses (at different
  positions) have the same set of literals: clauses with equal literal sets have equal
  fingerprints, and a clause whose fingerprint is already recorded is not appended.
\<close>

theorem no_two_clauses_share_a_literal_set:
  assumes "rng_ok R"
    and "main attempts fuel R world (Some n) (Some m) k p s F = Some (Inr cnf)"
  shows "distinct (map set (cnf_clauses cnf))"
proof -
  from main_Inr[OF assms] obtain cs where
    cl: "cnf_clauses cnf = map (map dimacs_literal) cs"
    and ok: "list_all (accepted_ok (default_k k) n (main_hidden R n s F) (default_p (default_k k) p)) cs"
    and dist: "distinct (map set cs)"
    by blast
  have sub: "set c \<subseteq> {(b, v). 1 \<le> v}" if "c \<in> set cs" for c
    using ok that by (auto simp: list_all_iff dest: accepted_ok_vars(1))
  have "inj_on (\<lambda>c. set (map dimacs_literal c)) (set cs)"
  proof (rule inj_onI)
    fix a b assume a: "a \<in> set cs" and b: "b \<in> set cs"
      and e: "set (map dimacs_literal a) = set (map dimacs_literal b)"
    from e have "dimacs_literal ` set a = dimacs_literal ` set b" by simp
    with sub[OF a] sub[OF b] have "set a = set b"
      by (simp add: inj_on_image_eq_iff[OF dimacs_literal_inj])
    with dist a b show "a = b" by (simp add: distinct_map inj_on_def)
  qed
  moreover from dist have "distinct cs" by (simp add: distinct_map)
  ultimately have "distinct (map (\<lambda>c. set (map dimacs_literal c)) cs)"
    by (simp add: distinct_map)
  then show ?thesis by (simp add: cl comp_def)
qed

text \<open>
  Uniqueness on the run of \<open>run_b\<close>.
\<close>

theorem no_two_clauses_share_a_literal_set_witness:
  "distinct (map set [[- 3, - 1], [1, 2], [- 1, - 2 :: int]])"
  using no_two_clauses_share_a_literal_set[OF toy_rng_ok run_b] by (simp only: CNF.simps)

subsection \<open>Shape\<close>

text \<open>
  Claim C5. Whenever \<open>main\<close> returns a formula, each of its clauses has exactly \<open>k\<close>
  literals (\<open>k = 3\<close> when not given), on pairwise distinct variables, all in \<open>[1, n]\<close>.
  Second conjunct: a clause that \<open>add_clause\<close> has inserted has pairwise distinct
  variables, none of them 0 or above \<open>n\<close>.
\<close>

theorem clauses_have_k_distinct_variables:
  assumes "rng_ok R"
    and "main attempts fuel R world (Some n) (Some m) k p s F = Some (Inr cnf)"
  shows "(\<forall>c \<in> set (cnf_clauses cnf).
            int (length c) = default_k k \<and> distinct (map abs c) \<and>
            (\<forall>l \<in> set c. 1 \<le> abs l \<and> abs l \<le> n)) \<and>
         (add_clause F' c' = (None, F'') \<longrightarrow>
            distinct (map (\<lambda>(truth, var). the_int var) c') \<and>
            list_all (\<lambda>(truth, var). the_int var \<le> cnf_n F' \<and> the_int var \<noteq> 0) c')"
proof (rule conjI; (rule ballI)?)
  fix c assume c: "c \<in> set (cnf_clauses cnf)"
  from assms c obtain c' where
    ok: "accepted_ok (default_k k) n (main_hidden R n s F) (default_p (default_k k) p) c'"
    and cc: "c = map dimacs_literal c'"
    by (rule main_Inr_clause)
  have m: "map abs c = map snd c'" unfolding cc by (rule map_abs_dimacs[OF ok])
  from ok have len: "int (length c') = default_k k" and dist: "distinct (map snd c')"
    and sub: "set (map snd c') \<subseteq> {1..n}"
    by (auto simp: accepted_ok_def)
  have "abs ` set c = set (map snd c')" using m by (metis set_map)
  with sub have "abs ` set c \<subseteq> {1..n}" by simp
  then have "\<forall>l \<in> set c. 1 \<le> abs l \<and> abs l \<le> n" by (auto simp: image_subset_iff)
  moreover from len have "int (length c) = default_k k" by (simp add: cc)
  moreover from dist have "distinct (map abs c)" by (simp only: m)
  ultimately show "int (length c) = default_k k \<and> distinct (map abs c) \<and>
            (\<forall>l \<in> set c. 1 \<le> abs l \<and> abs l \<le> n)" by blast
next
  show "add_clause F' c' = (None, F'') \<longrightarrow>
            distinct (map (\<lambda>(truth, var). the_int var) c') \<and>
            list_all (\<lambda>(truth, var). the_int var \<le> cnf_n F' \<and> the_int var \<noteq> 0) c'"
    using add_clause_validates by blast
qed

text \<open>
  Shape on the run of \<open>run_c\<close> (default \<open>k\<close>), and an inserted clause.
\<close>

theorem clauses_have_k_distinct_variables_witness:
  "list_all (\<lambda>c. int (length c) = default_k None \<and> distinct (map abs c) \<and>
                  list_all (\<lambda>l. 1 \<le> abs l \<and> abs l \<le> 3) c)
     [[2, - 3, - 1], [3, 1, 2], [- 2, - 3, - 1], [1, 2, - 3 :: int]] \<and>
   distinct (map (\<lambda>(truth, var). the_int var) [(PyBool True, PyInt 2), (PyBool False, PyInt 4)]) \<and>
   list_all (\<lambda>(truth, var). the_int var \<le> cnf_n (CNF_init 5) \<and> the_int var \<noteq> 0)
     [(PyBool True, PyInt 2), (PyBool False, PyInt 4)]"
proof -
  note T = clauses_have_k_distinct_variables[OF toy_rng_ok run_c, where F' = "CNF_init 5"
      and c' = "[(PyBool True, PyInt 2), (PyBool False, PyInt 4)]"
      and F'' = "\<lparr>cnf_clauses = [[2, - 4]], cnf_n = 5, cnf_header = ''Default header''\<rparr>"]
  have ok: "add_clause (CNF_init 5) [(PyBool True, PyInt 2), (PyBool False, PyInt 4)]
     = (None, \<lparr>cnf_clauses = [[2, - 4]], cnf_n = 5, cnf_header = ''Default header''\<rparr>)"
    by (simp add: add_clause_def CNF_init_def well_typed_def clause_list_def)
  from T[THEN conjunct1]
  have 1: "list_all (\<lambda>c. int (length c) = default_k None \<and> distinct (map abs c) \<and>
                  list_all (\<lambda>l. 1 \<le> abs l \<and> abs l \<le> 3) c)
     [[2, - 3, - 1], [3, 1, 2], [- 2, - 3, - 1], [1, 2, - 3 :: int]]"
    unfolding list_all_iff by (simp only: CNF.simps)
  from T[THEN conjunct2] ok
  have 2: "distinct (map (\<lambda>(truth, var). the_int var) [(PyBool True, PyInt 2), (PyBool False, PyInt 4)]) \<and>
   list_all (\<lambda>(truth, var). the_int var \<le> cnf_n (CNF_init 5) \<and> the_int var \<noteq> 0)
     [(PyBool True, PyInt 2), (PyBool False, PyInt 4)]"
    by blast
  from 1 2 show ?thesis by (rule conjI)
qed

subsection \<open>Acceptance probabilities 0 and 1\<close>

text \<open>
  Claim C6. First part: if \<open>p[i-1] = 0\<close>, no clause of the formula \<open>main\<close> returns has
  exactly \<open>i\<close> literals satisfied by the hidden assignment. Second part: in one run of the
  loop body, a candidate of class \<open>j\<close> with \<open>p[j-1] = 1\<close> whose fingerprint is not yet
  recorded is appended.
\<close>

theorem zero_suppresses_one_accepts:
  fixes R :: "'g rng" and st :: "'g sampler_state"
  assumes "rng_ok R"
  shows "(main attempts fuel R world (Some n) (Some m) k p s F = Some (Inr cnf) \<and>
          1 \<le> i \<and> i \<le> length (default_p (default_k k) p) \<and>
          default_p (default_k k) p ! (i - 1) = 0
          \<longrightarrow> (\<forall>c \<in> set (cnf_clauses cnf). satisfied_literals (main_hidden R n s F) c \<noteq> i))
       \<and> (draw_clause R (st_stream st) n' k' = Inr (c', g1) \<and>
          number_of_satisfied_literals c' hidden = j \<and> 1 \<le> j \<and> j \<le> length p' \<and>
          p' ! (j - 1) = 1 \<and> hash_clause tbl c' = Inr h \<and> h \<notin> st_clause_hash_set st
          \<longrightarrow> (\<exists>st'. sample_step R tbl k' n' hidden p' st = Inr st' \<and>
                 st_clauses st' = st_clauses st @ [c'] \<and>
                 st_clause_hash_set st' = insert h (st_clause_hash_set st)))"
proof (intro conjI impI ballI)
  fix c
  assume a: "main attempts fuel R world (Some n) (Some m) k p s F = Some (Inr cnf) \<and>
          1 \<le> i \<and> i \<le> length (default_p (default_k k) p) \<and>
          default_p (default_k k) p ! (i - 1) = 0"
    and c: "c \<in> set (cnf_clauses cnf)"
  from a have run: "main attempts fuel R world (Some n) (Some m) k p s F = Some (Inr cnf)"
    and z: "default_p (default_k k) p ! (i - 1) = 0" by simp_all
  from assms run c obtain c' where
    ok: "accepted_ok (default_k k) n (main_hidden R n s F) (default_p (default_k k) p) c'"
    and cc: "c = map dimacs_literal c'"
    by (rule main_Inr_clause)
  from ok have "0 < default_p (default_k k) p
                     ! (number_of_satisfied_literals c' (main_hidden R n s F) - 1)"
    by (simp add: accepted_ok_def)
  with z have "number_of_satisfied_literals c' (main_hidden R n s F) \<noteq> i" by auto
  then show "satisfied_literals (main_hidden R n s F) c \<noteq> i"
    unfolding cc satisfied_literals_dimacs[OF ok] .
next
  assume a: "draw_clause R (st_stream st) n' k' = Inr (c', g1) \<and>
          number_of_satisfied_literals c' hidden = j \<and> 1 \<le> j \<and> j \<le> length p' \<and>
          p' ! (j - 1) = 1 \<and> hash_clause tbl c' = Inr h \<and> h \<notin> st_clause_hash_set st"
  obtain r g2 where r: "rng_random R g1 = (r, g2)" by (cases "rng_random R g1")
  from assms have "fst (rng_random R g1) < 1" unfolding rng_ok_def by blast
  with r have "r < 1" by simp
  with a r show "\<exists>st'. sample_step R tbl k' n' hidden p' st = Inr st' \<and>
                 st_clauses st' = st_clauses st @ [c'] \<and>
                 st_clause_hash_set st' = insert h (st_clause_hash_set st)"
    by (auto simp: sample_step_def Let_def unfair_coin_flip_def)
qed

text \<open>
  Suppression of class 2 on the run of \<open>run_b\<close> (\<open>p = [1, 0]\<close>), and the first step of that run.
\<close>

theorem zero_suppresses_one_accepts_witness:
  "list_all (\<lambda>c. satisfied_literals (main_hidden toy_rng 3 (Some 1) None) c \<noteq> 2)
     [[- 3, - 1], [1, 2], [- 1, - 2]] \<and>
   (\<exists>st'. sample_step toy_rng
       (map_of [((True, 1), 10), ((False, 1), 11), ((True, 2), 12), ((False, 2), 13),
                ((True, 3), 14), ((False, 3), 15)])
       2 3 (main_hidden toy_rng 3 (Some 1) None) [1, 0]
       \<lparr>st_clauses = [], st_highestvariablecreated = 0, st_variableset = {},
        st_clause_hash_set = {}, st_stream = 2\<rparr> = Inr st' \<and>
     st_clauses st' = [] @ [[(False, 3), (False, 1)]] \<and>
     st_clause_hash_set st' = insert 26 {})"
proof -
  let ?h = "main_hidden toy_rng 3 (Some 1) None"
  let ?tbl = "map_of [((True, 1), 10), ((False, 1), 11), ((True, 2), 12), ((False, 2), 13),
                ((True, 3), 14), ((False, 3), 15 :: int)]"
  let ?st = "\<lparr>st_clauses = [], st_highestvariablecreated = 0, st_variableset = {},
        st_clause_hash_set = {}, st_stream = 2 :: nat\<rparr>"
  note T = zero_suppresses_one_accepts[OF toy_rng_ok, where attempts = 5 and fuel = 40 and world = "(Map.empty, 0)"
      and n = 3 and m = 3 and k = "Some 2" and p = "Some [1, 0]" and s = "Some 1" and F = None
      and cnf = "\<lparr>cnf_clauses = [[- 3, - 1], [1, 2], [- 1, - 2]], cnf_n = 3,
                  cnf_header = ''Default header''\<rparr>"
      and i = 2 and st = ?st and n' = 3 and k' = 2 and c' = "[(False, 3), (False, 1)]"
      and ?g1.0 = 23 and hidden = ?h and j = 1 and p' = "[1, 0]" and tbl = ?tbl and h = 26]
  have a: "(1::nat) \<le> 2 \<and> 2 \<le> length (default_p (default_k (Some 2)) (Some [1, 0])) \<and>
           default_p (default_k (Some 2)) (Some [1, 0]) ! (2 - 1) = 0"
    by (simp add: default_p_def)
  from T[THEN conjunct1] run_b a
  have "\<forall>c \<in> set [[- 3, - 1], [1, 2], [- 1, - 2]]. satisfied_literals ?h c \<noteq> 2"
    by (simp only: CNF.simps simp_thms)
  then have 1: "list_all (\<lambda>c. satisfied_literals ?h c \<noteq> 2) [[- 3, - 1], [1, 2], [- 1, - 2]]"
    unfolding list_all_iff .
  have d: "draw_clause toy_rng (st_stream ?st) 3 2 = Inr ([(False, 3), (False, 1)], 23)"
    by code_simp
  have i: "number_of_satisfied_literals [(False, 3), (False, 1)] ?h = 1" by code_simp
  have h: "hash_clause ?tbl [(False, 3), (False, 1)] = Inr 26" by code_simp
  have b: "(1::nat) \<le> 1 \<and> 1 \<le> length [1, 0 :: rat] \<and> [1, 0 :: rat] ! (1 - 1) = 1 \<and>
           26 \<notin> st_clause_hash_set ?st" by simp
  from T[THEN conjunct2] d i h b
  have 2: "\<exists>st'. sample_step toy_rng ?tbl 2 3 ?h [1, 0] ?st = Inr st' \<and>
     st_clauses st' = st_clauses ?st @ [[(False, 3), (False, 1)]] \<and>
     st_clause_hash_set st' = insert 26 (st_clause_hash_set ?st)"
    by blast
  have sel: "st_clauses ?st = []" "st_clause_hash_set ?st = {}" by simp_all
  from 1 2 show ?thesis unfolding sel by (rule conjI)
qed

subsection \<open>The fingerprint table and the seeds\<close>

text \<open>
  Claim fingerprint_table_follows_module_stream does not hold of the code: \<open>init_variable_mapping\<close> never reads its \<open>seed\<close>
  argument (first conjunct: any two seeds give the same result), and the table it
  writes follows the module-level stream, which \<open>main\<close> has seeded with the sampling
  seed. With the stream seeded by 1 and by 2 the tables differ, under the same hasher
  seed 42 (second and third conjunct, on the small generator).
\<close>

theorem fingerprint_table_follows_module_stream:
  "init_variable_mapping R world n seed = init_variable_mapping R world n seed' \<and>
   map_sum id (\<lambda>(tbl, g). (tbl (True, 1), tbl (False, 1)))
     (init_variable_mapping toy_rng (Map.empty, rng_seed toy_rng 1) 1 42) = Inr (Some 1, Some 2) \<and>
   map_sum id (\<lambda>(tbl, g). (tbl (True, 1), tbl (False, 1)))
     (init_variable_mapping toy_rng (Map.empty, rng_seed toy_rng 2) 1 42) = Inr (Some 2, Some 3)"
proof (intro conjI)
  show "init_variable_mapping R world n seed = init_variable_mapping R world n seed'"
    by (simp add: init_variable_mapping_def)
  show "map_sum id (\<lambda>(tbl, g). (tbl (True, 1), tbl (False, 1)))
     (init_variable_mapping toy_rng (Map.empty, rng_seed toy_rng 1) 1 42) = Inr (Some 1, Some 2)"
    by code_simp
  show "map_sum id (\<lambda>(tbl, g). (tbl (True, 1), tbl (False, 1)))
     (init_variable_mapping toy_rng (Map.empty, rng_seed toy_rng 2) 1 42) = Inr (Some 2, Some 3)"
    by code_simp
qed

text \<open>
  The theorem at the hasher seeds 42 and 7.
\<close>

theorem fingerprint_table_follows_module_stream_witness:
  "init_variable_mapping toy_rng (Map.empty, rng_seed toy_rng 1) 1 42
     = init_variable_mapping toy_rng (Map.empty, rng_seed toy_rng 1) 1 7 \<and>
   map_sum id (\<lambda>(tbl, g). (tbl (True, 1), tbl (False, 1)))
     (init_variable_mapping toy_rng (Map.empty, rng_seed toy_rng 1) 1 7) = Inr (Some 1, Some 2) \<and>
   map_sum id (\<lambda>(tbl, g). (tbl (True, 1), tbl (False, 1)))
     (init_variable_mapping toy_rng (Map.empty, rng_seed toy_rng 2) 1 7) = Inr (Some 2, Some 3)"
proof -
  note a = fingerprint_table_follows_module_stream[of toy_rng "(Map.empty, rng_seed toy_rng 1)" 1 42 7]
  note b = fingerprint_table_follows_module_stream[of toy_rng "(Map.empty, rng_seed toy_rng 2)" 1 42 7]
  from a have 1: "init_variable_mapping toy_rng (Map.empty, rng_seed toy_rng 1) 1 42
     = init_variable_mapping toy_rng (Map.empty, rng_seed toy_rng 1) 1 7" by (rule conjunct1)
  from b have 2: "init_variable_mapping toy_rng (Map.empty, rng_seed toy_rng 2) 1 42
     = init_variable_mapping toy_rng (Map.empty, rng_seed toy_rng 2) 1 7" by (rule conjunct1)
  from a have 3: "map_sum id (\<lambda>(tbl, g). (tbl (True, 1), tbl (False, 1)))
     (init_variable_mapping toy_rng (Map.empty, rng_seed toy_rng 1) 1 42) = Inr (Some 1, Some 2)"
    by (rule conjunct2[THEN conjunct1])
  from a have 4: "map_sum id (\<lambda>(tbl, g). (tbl (True, 1), tbl (False, 1)))
     (init_variable_mapping toy_rng (Map.empty, rng_seed toy_rng 2) 1 42) = Inr (Some 2, Some 3)"
    by (rule conjunct2[THEN conjunct2])
  from 1 3[unfolded 1] 4[unfolded 2] show ?thesis by (intro conjI)
qed

subsection \<open>The range check of add_clause\<close>

text \<open>
  Claim add_clause_range_error as stated fails: a negative variable is not in \<open>[1, n]\<close>, and \<open>add_clause\<close>
  accepts it.
\<close>

theorem add_clause_accepts_negative_variable:
  "(- 3 :: int) \<notin> {1..5} \<and>
   add_clause (CNF_init 5) [(PyBool True, PyInt (- 3))]
     = (None, \<lparr>cnf_clauses = [[- 3]], cnf_n = 5, cnf_header = ''Default header''\<rparr>)"
  by (simp add: add_clause_def CNF_init_def well_typed_def clause_list_def)

text \<open>
  Claim C8, amended. For a clause of well-typed pairs that holds a variable that is 0 or
  greater than \<open>n\<close>, \<open>add_clause\<close> raises \<open>ValueError\<close> and leaves the formula as it was;
  whenever it raises, the formula is as it was; when it succeeds, the number of clauses
  grows by exactly one.
\<close>

theorem add_clause_range_error:
  "(list_all well_typed clause \<and>
    list_ex (\<lambda>(truth, var). the_int var = 0 \<or> cnf_n F < the_int var) clause
    \<longrightarrow> (\<exists>msg. add_clause F clause = (Some (ValueError msg), F)))
   \<and> (\<forall>e F'. add_clause F clause = (Some e, F') \<longrightarrow> F' = F)
   \<and> (\<forall>F'. add_clause F clause = (None, F') \<longrightarrow> len_CNF F' = len_CNF F + 1)"
proof (intro conjI impI allI)
  assume a: "list_all well_typed clause \<and>
    list_ex (\<lambda>(truth, var). the_int var = 0 \<or> cnf_n F < the_int var) clause"
  then have "list_ex (\<lambda>(_, lit). the_int lit > cnf_n F \<or> the_int lit = 0) clause"
    by (auto simp: list_ex_iff)
  with a show "\<exists>msg. add_clause F clause = (Some (ValueError msg), F)"
    by (simp add: add_clause_def)
next
  fix e F' assume "add_clause F clause = (Some e, F')"
  then show "F' = F" by (auto simp: add_clause_def split: if_splits)
next
  fix F' assume "add_clause F clause = (None, F')"
  then show "len_CNF F' = len_CNF F + 1"
    by (auto simp: add_clause_def len_CNF_def split: if_splits)
qed

text \<open>
  A variable above \<open>n\<close> is refused; a valid clause makes the formula one clause longer.
\<close>

theorem add_clause_range_error_witness:
  "(\<exists>msg. add_clause (CNF_init 5) [(PyBool True, PyInt 2), (PyBool False, PyInt 6)]
           = (Some (ValueError msg), CNF_init 5)) \<and>
   len_CNF \<lparr>cnf_clauses = [[2, - 4]], cnf_n = 5, cnf_header = ''Default header''\<rparr>
     = len_CNF (CNF_init 5) + 1"
proof -
  have w: "list_all well_typed [(PyBool True, PyInt 2), (PyBool False, PyInt 6)] \<and>
    list_ex (\<lambda>(truth, var). the_int var = 0 \<or> cnf_n (CNF_init 5) < the_int var)
      [(PyBool True, PyInt 2), (PyBool False, PyInt 6)]"
    by (simp add: well_typed_def CNF_init_def)
  have ok: "add_clause (CNF_init 5) [(PyBool True, PyInt 2), (PyBool False, PyInt 4)]
     = (None, \<lparr>cnf_clauses = [[2, - 4]], cnf_n = 5, cnf_header = ''Default header''\<rparr>)"
    by (simp add: add_clause_def CNF_init_def well_typed_def clause_list_def)
  from add_clause_range_error[of "[(PyBool True, PyInt 2), (PyBool False, PyInt 6)]" "CNF_init 5"] w
  have 1: "\<exists>msg. add_clause (CNF_init 5) [(PyBool True, PyInt 2), (PyBool False, PyInt 6)]
           = (Some (ValueError msg), CNF_init 5)" by blast
  from add_clause_range_error[of "[(PyBool True, PyInt 2), (PyBool False, PyInt 4)]" "CNF_init 5"] ok
  have 2: "len_CNF \<lparr>cnf_clauses = [[2, - 4]], cnf_n = 5, cnf_header = ''Default header''\<rparr>
     = len_CNF (CNF_init 5) + 1" by blast
  from 1 2 show ?thesis by (rule conjI)
qed

subsection \<open>More clauses requested than exist\<close>

lemma draw_clause_one:
  assumes R: "rng_ok R"
  shows "\<exists>b g'. draw_clause R g 1 1 = Inr ([(b, 1)], g')"
proof -
  have s: "py_sample R g 1 (1 + 1) 1 = Inr (rng_sample R g 1 2 1)"
    by (simp add: py_sample_def)
  obtain vars g1 where v: "rng_sample R g 1 2 1 = (vars, g1)" by (cases "rng_sample R g 1 2 1")
  from py_sample_ok[OF R s[unfolded v]] have "length vars = 1" "set vars \<subseteq> {1..<2}" by auto
  then have vars: "vars = [1]" by (cases vars) auto
  obtain b g2 where c: "rng_choice R g1 = (b, g2)" by (cases "rng_choice R g1")
  from s v vars c have "draw_clause R g 1 1 = Inr ([(b, 1)], g2)"
    by (simp add: draw_clause_def)
  then show ?thesis by blast
qed

lemma stuck_step:
  fixes R :: "'g rng" and st :: "'g sampler_state"
  assumes R: "rng_ok R" and hid: "hid 1 = Some True"
    and tbl: "tbl (True, 1) = Some a" and st: "stuck a st"
  shows "\<exists>st' :: 'g sampler_state. sample_step R tbl 1 1 hid [1] st = Inr st' \<and> stuck a st'"
proof -
  from draw_clause_one[OF R] obtain b g1 where
    d: "draw_clause R (st_stream st) 1 1 = Inr ([(b, 1)], g1)" by blast
  show ?thesis
  proof (cases b)
    case False
    with d have "sample_step R tbl 1 1 hid [1] st = Inr (st\<lparr>st_stream := g1\<rparr>)"
      using hid by (simp add: sample_step_def number_of_satisfied_literals_def)
    moreover from st have "stuck a (st\<lparr>st_stream := g1\<rparr>)" by (simp add: stuck_def)
    ultimately show ?thesis by blast
  next
    case True
    obtain r g2 where r: "rng_random R g1 = (r, g2)" by (cases "rng_random R g1")
    from R have "fst (rng_random R g1) < 1" unfolding rng_ok_def by blast
    with r have r1: "r < 1" by simp
    have i: "number_of_satisfied_literals [(True, 1)] hid = 1"
      using hid by (auto simp: number_of_satisfied_literals_def)
    have h: "hash_clause tbl [(True, 1)] = Inr a" using tbl by simp
    show ?thesis
    proof (cases "a \<in> st_clause_hash_set st")
      case True
      with d \<open>b\<close> r r1 i h
      have "sample_step R tbl 1 1 hid [1] st = Inr (st\<lparr>st_stream := g2\<rparr>)"
        by (simp add: sample_step_def unfair_coin_flip_def)
      moreover from st have "stuck a (st\<lparr>st_stream := g2\<rparr>)" by (simp add: stuck_def)
      ultimately show ?thesis by blast
    next
      case False
      with st have e: "st_clauses st = []" by (auto simp: stuck_def)
      from False d \<open>b\<close> r r1 i h
      have "sample_step R tbl 1 1 hid [1] st =
        Inr \<lparr>st_clauses = st_clauses st @ [[(True, 1)]],
             st_highestvariablecreated = fold max (map snd [(True, 1)]) (st_highestvariablecreated st),
             st_variableset = st_variableset st \<union> set (map snd [(True, 1 :: int)]),
             st_clause_hash_set = insert a (st_clause_hash_set st),
             st_stream = g2\<rparr>"
        by (simp add: sample_step_def unfair_coin_flip_def)
      moreover have "stuck a \<lparr>st_clauses = st_clauses st @ [[(True, 1)]],
             st_highestvariablecreated = fold max (map snd [(True, 1)]) (st_highestvariablecreated st),
             st_variableset = st_variableset st \<union> set (map snd [(True, 1 :: int)]),
             st_clause_hash_set = insert a (st_clause_hash_set st),
             st_stream = g2\<rparr>"
        by (simp add: stuck_def e)
      ultimately show ?thesis by blast
    qed
  qed
qed

lemma stuck_loop:
  fixes R :: "'g rng" and st :: "'g sampler_state"
  assumes R: "rng_ok R" and hid: "hid 1 = Some True"
    and tbl: "tbl (True, 1) = Some a" and m: "2 \<le> m" and st: "stuck a st"
  shows "sample_loop fuel R tbl 1 1 m hid [1] st = None"
  using st
proof (induction fuel arbitrary: st)
  case 0
  with m show ?case by (simp add: stuck_def)
next
  case (Suc fuel)
  from stuck_step[where tbl = tbl and hid = hid, OF R hid tbl Suc.prems] obtain st' :: "'g sampler_state" where
    s: "sample_step R tbl 1 1 hid [1] st = Inr st'" and st': "stuck a st'" by blast
  from Suc.prems m have "int (length (st_clauses st)) < m" by (simp add: stuck_def)
  with s Suc.IH[OF st'] show ?case by simp
qed

lemma stuck_main_loop:
  assumes R: "rng_ok R" and hid: "hid 1 = Some True"
    and tbl: "tbl (True, 1) = Some a" and m: "2 \<le> m"
  shows "main_loop attempts fuel R tbl 1 1 m hid s [1] t = None"
proof (cases attempts)
  case 0
  then show ?thesis by simp
next
  case (Suc n)
  have "sample_clauses fuel R tbl 1 1 m hid (s + (t + 1)) [1] = None"
    unfolding sample_clauses_def by (rule stuck_loop[where tbl = tbl and hid = hid, OF R hid tbl m]) (simp add: stuck_def)
  with Suc show ?thesis by simp
qed

lemma init_one:
  assumes R: "rng_ok R"
  shows "\<exists>tbl g' a. init_variable_mapping R world 1 seed = Inr (tbl, g') \<and> tbl (True, 1) = Some a"
proof -
  have s: "py_sample R (snd world) 0 (2 ^ 32 - 1) (2 * 1) = Inr (rng_sample R (snd world) 0 (2 ^ 32 - 1) 2)"
    by (simp add: py_sample_def)
  obtain xs g' where x: "rng_sample R (snd world) 0 (2 ^ 32 - 1) 2 = (xs, g')"
    by (cases "rng_sample R (snd world) 0 (2 ^ 32 - 1) 2")
  from py_sample_ok[OF R s[unfolded x]] have "length xs = 2" by simp
  then obtain a b where xs: "xs = [a, b]"
    by (cases xs; cases "tl xs") auto
  have "init_variable_mapping R world 1 seed
        = Inr ((fst world)((True, 1) \<mapsto> a, (False, 1) \<mapsto> b), g')"
    using s x xs by (simp add: init_variable_mapping_def)
  then show ?thesis by auto
qed

text \<open>
  Claim exhausted_clause_space_never_returns does not hold of the code. With one variable, width one and the hidden
  assignment \<open>1\<close>, only one clause can be accepted. For any \<open>m \<ge> 2\<close> the sampler's loop
  then never ends and no exception is raised: whatever the fuel and the number of
  attempts, \<open>main\<close> has not returned.
\<close>

theorem exhausted_clause_space_never_returns:
  assumes "rng_ok R" and "2 \<le> m"
  shows "main attempts fuel R world (Some 1) (Some m) (Some 1) (Some [1]) s (Some [1]) = None"
proof -
  have chk: "check_parameters 1 m 1 [1] = None"
    using assms(2) by (simp add: check_parameters_def)
  have hid: "hiddensol_listint R g 1 (Some [1]) = Inr ([1], g)" for g
    by (simp add: hiddensol_listint_def check_hidden_solution_def)
  have dict: "hidden_dict [1] 1 = Some True" by (simp add: hidden_dict_def)
  from init_one[OF assms(1)] obtain tbl g' a where
    i: "init_variable_mapping R (fst world, rng_seed R (default_s s)) 1 42 = Inr (tbl, g')"
    and t: "tbl (True, 1) = Some a" by blast
  have "generate attempts fuel R (fst world, rng_seed R (default_s s)) 1 m 1 [1] (default_s s)
          (hidden_dict [1]) = None"
    by (simp add: generate_def i stuck_main_loop[where tbl = tbl and hid = "hidden_dict [1]", OF assms(1) dict t assms(2)])
  with chk hid show ?thesis
    by (simp add: main_def default_k_def default_p_def)
qed

text \<open>
  The theorem on the small generator, with 7 attempts of 100 steps each.
\<close>

theorem exhausted_clause_space_never_returns_witness:
  "main 7 100 toy_rng (Map.empty, 0) (Some 1) (Some 2) (Some 1) (Some [1]) (Some 42) (Some [1]) = None"
  using exhausted_clause_space_never_returns[OF toy_rng_ok, of 2] by simp

subsection \<open>No width check in add_clause\<close>

text \<open>
  Claim C10. \<open>add_clause\<close> accepts a clause of any length whose pairs are well typed, with
  variables in \<open>[1, n]\<close> and pairwise distinct; in particular the empty clause.
\<close>

theorem add_clause_accepts_any_width:
  "(list_all well_typed clause \<and>
    list_all (\<lambda>(truth, var). 1 \<le> the_int var \<and> the_int var \<le> cnf_n F) clause \<and>
    distinct (map (\<lambda>(truth, var). the_int var) clause)
    \<longrightarrow> add_clause F clause = (None, F\<lparr>cnf_clauses := cnf_clauses F @ [clause_list clause]\<rparr>))
   \<and> add_clause F [] = (None, F\<lparr>cnf_clauses := cnf_clauses F @ [[]]\<rparr>)"
proof (intro conjI impI)
  assume a: "list_all well_typed clause \<and>
    list_all (\<lambda>(truth, var). 1 \<le> the_int var \<and> the_int var \<le> cnf_n F) clause \<and>
    distinct (map (\<lambda>(truth, var). the_int var) clause)"
  then have r: "\<not> list_ex (\<lambda>(_, lit). the_int lit > cnf_n F \<or> the_int lit = 0) clause"
    by (auto simp: list_ex_iff list_all_iff)
  from a have "card (set (map (\<lambda>(_, lit). the_int lit) clause)) = length clause"
    using distinct_card[of "map (\<lambda>(truth, var). the_int var) clause"] by simp
  with a r show "add_clause F clause = (None, F\<lparr>cnf_clauses := cnf_clauses F @ [clause_list clause]\<rparr>)"
    by (simp add: add_clause_def)
next
  show "add_clause F [] = (None, F\<lparr>cnf_clauses := cnf_clauses F @ [[]]\<rparr>)"
    by (simp add: add_clause_def clause_list_def)
qed

text \<open>
  A clause of five literals and the empty clause, \<open>n = 9\<close>.
\<close>

theorem add_clause_accepts_any_width_witness:
  "add_clause (CNF_init 9)
     [(PyBool True, PyInt 2), (PyBool False, PyInt 4), (PyBool True, PyInt 9),
      (PyBool False, PyInt 1), (PyBool False, PyInt 7)]
   = (None, \<lparr>cnf_clauses = [[2, - 4, 9, - 1, - 7]], cnf_n = 9, cnf_header = ''Default header''\<rparr>)
   \<and> add_clause (CNF_init 9) []
   = (None, \<lparr>cnf_clauses = [[]], cnf_n = 9, cnf_header = ''Default header''\<rparr>)"
  using add_clause_accepts_any_width[of "[(PyBool True, PyInt 2), (PyBool False, PyInt 4), (PyBool True, PyInt 9),
      (PyBool False, PyInt 1), (PyBool False, PyInt 7)]" "CNF_init 9"]
  by (simp add: well_typed_def CNF_init_def clause_list_def)

end
